theory Spec2Isabelle
  imports Main
begin

section \<open>Data model of \<open>WebSocketRedisServer\<close>\<close>

text \<open>
  The development follows \<^verbatim>\<open>src/web-socket-redis-server.ts\<close>. A client socket is a
  JavaScript object; only its identity matters to the server, so a socket is a natural
  number. The \<^verbatim>\<open>ws\<close> library creates a fresh object for every accepted connection.
\<close>

type_synonym socket = nat

datatype ready_state = CONNECTING | OPEN | CLOSING | CLOSED

text \<open>
  The run-time value of \<^verbatim>\<open>stockSymbol\<close>. The TypeScript type says \<^verbatim>\<open>string\<close>, but the value
  comes unchecked out of \<^verbatim>\<open>JSON.parse\<close>, so a frame without the field yields
  \<^verbatim>\<open>undefined\<close>. Field values of other JSON types are not modelled.
\<close>

datatype symbol = Undefined | Str string

text \<open>The template literal \<^verbatim>\<open>`orderbook.${stockSymbol}`\<close>: the Redis channel of a symbol.\<close>

definition channel :: "symbol \<Rightarrow> string" where
  "channel stockSymbol =
     ''orderbook.'' @ (case stockSymbol of Undefined \<Rightarrow> ''undefined'' | Str s \<Rightarrow> s)"

text \<open>
  A call issued on \<^verbatim>\<open>redisClient\<close>, recorded with the symbol it was issued for; the
  channel passed to Redis is \<^const>\<open>channel\<close> of that symbol.
\<close>

datatype redis_call = Subscribe symbol | Unsubscribe symbol

text \<open>
  An \<^verbatim>\<open>async\<close> call suspended at its \<^verbatim>\<open>await\<close> of a Redis call (line 94 or line 130), waiting
  for the reply. The flag tells who holds its promise: \<open>True\<close> when the message handler
  awaits it inside its \<^verbatim>\<open>try\<close>, \<open>False\<close> when \<^verbatim>\<open>handleClientDisconnection\<close> started it
  inside \<^verbatim>\<open>forEach\<close> and dropped the promise.
\<close>

datatype suspended = Suspended redis_call bool

text \<open>The object handed to \<^verbatim>\<open>JSON.stringify\<close> in \<^verbatim>\<open>broadcastToSubscribers\<close>.\<close>

record envelope =
  event :: string
  stockSymbol :: symbol
  message :: string

text \<open>
  What \<^verbatim>\<open>JSON.parse\<close> returned for an inbound frame: \<^verbatim>\<open>null\<close>, or a value read through
  its \<^verbatim>\<open>type\<close> and \<^verbatim>\<open>stockSymbol\<close> properties. \<open>type_field = None\<close> stands for a
  \<^verbatim>\<open>type\<close> that is absent or not a string (it then equals neither literal).
\<close>

datatype json_value = JsonNull | JsonObject (type_field: "string option") (symbol_field: symbol)

text \<open>An inbound frame: text that \<^verbatim>\<open>JSON.parse\<close> rejects, or text that it decodes.\<close>

datatype raw_data = Malformed | Json json_value

datatype error = SyntaxError | TypeError | RedisError

text \<open>One constructor per call site of \<^verbatim>\<open>logger\<close>, with the metadata the claims refer to.\<close>

datatype log_entry =
    ServerInitialized
  | ClientConnected int
  | MessageReceived
  | ErrorProcessingMessage error
  | UnknownMessageType
  | DuplicateSubscriptionAttempt symbol
  | NewStockSubscriptionCreated symbol
  | ClientAddedToExistingSubscription symbol nat
  | UnsubscribeAttemptForNonSubscribedStock symbol
  | StockSubscriptionRemoved symbol
  | ClientRemovedFromSubscription symbol nat
  | BroadcastCompleted symbol nat nat nat
  | ClientDisconnected int nat

text \<open>
  The server's fields \<^verbatim>\<open>globalSubscriptions\<close> and \<^verbatim>\<open>clientSubscriptions\<close> and the module
  variable \<^verbatim>\<open>usersCount\<close>, together with the server's observable effects (the calls
  issued on \<^verbatim>\<open>redisClient\<close>, the frames passed to \<^verbatim>\<open>client.send\<close>, the log), the identity
  the next accepted socket will have, the calls suspended on a Redis reply, and whether
  the process has ended.

  A JavaScript \<^verbatim>\<open>Set\<close> iterates in insertion order and holds no duplicates: it is a list
  that \<open>set_add\<close> keeps free of duplicates.
\<close>

record server =
  globalSubscriptions :: "symbol \<rightharpoonup> socket list"
  clientSubscriptions :: "socket \<rightharpoonup> symbol list"
  usersCount :: int
  redisCalls :: "redis_call list"
  sent :: "(socket \<times> envelope) list"
  logs :: "log_entry list"
  nextSocket :: socket
  pending :: "suspended list"
  terminated :: bool

definition set_has :: "'a list \<Rightarrow> 'a \<Rightarrow> bool" where
  "set_has s x = (x \<in> set s)"

definition set_add :: "'a list \<Rightarrow> 'a \<Rightarrow> 'a list" where
  "set_add s x = (if x \<in> set s then s else s @ [x])"

definition set_delete :: "'a list \<Rightarrow> 'a \<Rightarrow> 'a list" where
  "set_delete s x = removeAll x s"

definition logger :: "log_entry \<Rightarrow> server \<Rightarrow> server" where
  "logger e st = st\<lparr>logs := logs st @ [e]\<rparr>"

text \<open>The constructor (lines 19-31).\<close>

definition initial :: server where
  "initial = \<lparr>globalSubscriptions = Map.empty, clientSubscriptions = Map.empty,
     usersCount = 0, redisCalls = [], sent = [], logs = [ServerInitialized],
     nextSocket = 0, pending = [], terminated = False\<rparr>"

section \<open>Operations\<close>

text \<open>The body of the \<^verbatim>\<open>"connection"\<close> handler (lines 35-43), the spec's \<open>onConnect\<close>.\<close>

definition onConnect :: "server \<Rightarrow> socket \<Rightarrow> server" where
  "onConnect st ws =
     (let st1 = st\<lparr>usersCount := usersCount st + 1\<rparr>;
          st2 = logger (ClientConnected (usersCount st1)) st1
      in st2\<lparr>clientSubscriptions := (clientSubscriptions st2)(ws \<mapsto> [])\<rparr>)"

text \<open>
  \<^verbatim>\<open>handleSubscription\<close> (lines 80-112), from its call to the settling of its promise,
  with nothing else handled in between. \<open>redis_ok\<close> is the outcome of the awaited
  \<^verbatim>\<open>redisClient.subscribe\<close>: the promise fulfils or rejects. The non-null assertion on
  \<^verbatim>\<open>clientSubscriptions.get(ws)\<close> is erased at run time: for an unregistered socket the
  call \<^verbatim>\<open>clientSubs.has\<close> throws a TypeError. The result is the settled promise.
\<close>

definition handleSubscription ::
  "server \<Rightarrow> socket \<Rightarrow> symbol \<Rightarrow> bool \<Rightarrow> (error + unit) \<times> server" where
  "handleSubscription st ws symb redis_ok =
     (case clientSubscriptions st ws of
        None \<Rightarrow> (Inl TypeError, st)
      | Some clientSubs \<Rightarrow>
          if set_has clientSubs symb then (Inr (), logger (DuplicateSubscriptionAttempt symb) st)
          else
            let st1 = st\<lparr>clientSubscriptions :=
                        (clientSubscriptions st)(ws \<mapsto> set_add clientSubs symb)\<rparr>
            in (case globalSubscriptions st1 symb of
                  None \<Rightarrow>
                    let st2 = st1\<lparr>globalSubscriptions := (globalSubscriptions st1)(symb \<mapsto> [ws])\<rparr>;
                        st3 = st2\<lparr>redisCalls := redisCalls st2 @ [Subscribe symb]\<rparr>
                    in if redis_ok then (Inr (), logger (NewStockSubscriptionCreated symb) st3)
                       else (Inl RedisError, st3)
                | Some globalSubs \<Rightarrow>
                    let st2 = st1\<lparr>globalSubscriptions :=
                                (globalSubscriptions st1)(symb \<mapsto> set_add globalSubs ws)\<rparr>
                    in (Inr (), logger (ClientAddedToExistingSubscription symb
                                       (length (set_add globalSubs ws))) st2)))"

text \<open>
  The same function in two parts, split at its only \<^verbatim>\<open>await\<close> (line 94): what runs when
  it is called, answering \<open>Inr True\<close> when it is suspended on the promise of
  \<^verbatim>\<open>redisClient.subscribe\<close>, and what runs when that promise settles (lines 100-103 when
  it fulfils).
\<close>

definition handleSubscription_start ::
  "server \<Rightarrow> socket \<Rightarrow> symbol \<Rightarrow> (error + bool) \<times> server" where
  "handleSubscription_start st ws symb =
     (case clientSubscriptions st ws of
        None \<Rightarrow> (Inl TypeError, st)
      | Some clientSubs \<Rightarrow>
          if set_has clientSubs symb
          then (Inr False, logger (DuplicateSubscriptionAttempt symb) st)
          else
            let st1 = st\<lparr>clientSubscriptions :=
                        (clientSubscriptions st)(ws \<mapsto> set_add clientSubs symb)\<rparr>
            in (case globalSubscriptions st1 symb of
                  None \<Rightarrow>
                    let st2 = st1\<lparr>globalSubscriptions := (globalSubscriptions st1)(symb \<mapsto> [ws])\<rparr>
                    in (Inr True, st2\<lparr>redisCalls := redisCalls st2 @ [Subscribe symb]\<rparr>)
                | Some globalSubs \<Rightarrow>
                    let st2 = st1\<lparr>globalSubscriptions :=
                                (globalSubscriptions st1)(symb \<mapsto> set_add globalSubs ws)\<rparr>
                    in (Inr False, logger (ClientAddedToExistingSubscription symb
                                            (length (set_add globalSubs ws))) st2)))"

definition handleSubscription_resume ::
  "server \<Rightarrow> symbol \<Rightarrow> bool \<Rightarrow> (error + unit) \<times> server" where
  "handleSubscription_resume st symb redis_ok =
     (if redis_ok then (Inr (), logger (NewStockSubscriptionCreated symb) st)
      else (Inl RedisError, st))"

text \<open>
  \<^verbatim>\<open>handleUnsubscription\<close> (lines 114-140) in two parts, split at its only \<^verbatim>\<open>await\<close>.
  The first part runs synchronously when the function is called; it answers
  \<open>Inr True\<close> when it has issued \<^verbatim>\<open>redisClient.unsubscribe\<close> and is suspended on the
  returned promise, \<open>Inr False\<close> when it has returned, \<open>Inl e\<close> when it has thrown.
\<close>

definition handleUnsubscription_start ::
  "server \<Rightarrow> socket \<Rightarrow> symbol \<Rightarrow> (error + bool) \<times> server" where
  "handleUnsubscription_start st ws symb =
     (case clientSubscriptions st ws of
        None \<Rightarrow> (Inl TypeError, st)
      | Some clientSubs \<Rightarrow>
          if \<not> set_has clientSubs symb
          then (Inr False, logger (UnsubscribeAttemptForNonSubscribedStock symb) st)
          else
            let st1 = st\<lparr>clientSubscriptions :=
                        (clientSubscriptions st)(ws \<mapsto> set_delete clientSubs symb)\<rparr>
            in (case globalSubscriptions st1 symb of
                  None \<Rightarrow> (Inl TypeError, st1)
                | Some globalSubs \<Rightarrow>
                    let st2 = st1\<lparr>globalSubscriptions :=
                                (globalSubscriptions st1)(symb \<mapsto> set_delete globalSubs ws)\<rparr>
                    in if length (set_delete globalSubs ws) = 0
                       then (Inr True, st2\<lparr>redisCalls := redisCalls st2 @ [Unsubscribe symb]\<rparr>)
                       else (Inr False, logger (ClientRemovedFromSubscription symb
                                               (length (set_delete globalSubs ws))) st2)))"

text \<open>
  The second part runs when the promise of \<^verbatim>\<open>redisClient.unsubscribe\<close> settles: lines
  131-132 when it fulfils; when it rejects, the \<^verbatim>\<open>await\<close> throws and they are skipped.
\<close>

definition handleUnsubscription_resume ::
  "server \<Rightarrow> symbol \<Rightarrow> bool \<Rightarrow> (error + unit) \<times> server" where
  "handleUnsubscription_resume st symb redis_ok =
     (if redis_ok
      then (Inr (), logger (StockSubscriptionRemoved symb)
                      (st\<lparr>globalSubscriptions := (globalSubscriptions st)(symb := None)\<rparr>))
      else (Inl RedisError, st))"

text \<open>
  \<^verbatim>\<open>handleUnsubscription\<close> from its call to the settling of its promise, with nothing
  else handled in between.
\<close>

definition handleUnsubscription ::
  "server \<Rightarrow> socket \<Rightarrow> symbol \<Rightarrow> bool \<Rightarrow> (error + unit) \<times> server" where
  "handleUnsubscription st ws symb redis_ok =
     (case handleUnsubscription_start st ws symb of
        (Inl e, st') \<Rightarrow> (Inl e, st')
      | (Inr False, st') \<Rightarrow> (Inr (), st')
      | (Inr True, st') \<Rightarrow> handleUnsubscription_resume st' symb redis_ok)"

text \<open>
  \<^verbatim>\<open>handleMessage\<close> (lines 65-78), again from call to settled promise. Destructuring
  \<^verbatim>\<open>null\<close> throws a TypeError.
\<close>

definition handleMessage ::
  "server \<Rightarrow> socket \<Rightarrow> json_value \<Rightarrow> bool \<Rightarrow> (error + unit) \<times> server" where
  "handleMessage st ws data redis_ok =
     (case data of
        JsonNull \<Rightarrow> (Inl TypeError, st)
      | JsonObject ty symb \<Rightarrow>
          if ty = Some ''subscribe'' then handleSubscription st ws symb redis_ok
          else if ty = Some ''unsubscribe'' then handleUnsubscription st ws symb redis_ok
          else (Inr (), logger UnknownMessageType st))"

definition JSON_parse :: "raw_data \<Rightarrow> error + json_value" where
  "JSON_parse raw = (case raw of Malformed \<Rightarrow> Inl SyntaxError | Json v \<Rightarrow> Inr v)"

text \<open>
  The \<^verbatim>\<open>"message"\<close> handler (lines 45-59), from call to settled promise: every exception
  is caught and logged.
\<close>

definition onMessage :: "server \<Rightarrow> socket \<Rightarrow> raw_data \<Rightarrow> bool \<Rightarrow> server" where
  "onMessage st ws raw redis_ok =
     (case JSON_parse raw of
        Inl e \<Rightarrow> logger (ErrorProcessingMessage e) st
      | Inr data \<Rightarrow>
          (case handleMessage st ws data redis_ok of
             (Inl e, st') \<Rightarrow> logger (ErrorProcessingMessage e) st'
           | (Inr u, st') \<Rightarrow> logger MessageReceived st'))"

text \<open>
  \<^verbatim>\<open>handleMessage\<close> and the \<^verbatim>\<open>"message"\<close> handler up to their first \<^verbatim>\<open>await\<close> that
  suspends: the handler either runs to its end, or leaves the Redis call it waits for
  among the pending ones.
\<close>

definition handleMessage_start ::
  "server \<Rightarrow> socket \<Rightarrow> json_value \<Rightarrow> (error + redis_call option) \<times> server" where
  "handleMessage_start st ws data =
     (case data of
        JsonNull \<Rightarrow> (Inl TypeError, st)
      | JsonObject ty symb \<Rightarrow>
          if ty = Some ''subscribe'' then
            (case handleSubscription_start st ws symb of
               (Inl e, st') \<Rightarrow> (Inl e, st')
             | (Inr b, st') \<Rightarrow> (Inr (if b then Some (Subscribe symb) else None), st'))
          else if ty = Some ''unsubscribe'' then
            (case handleUnsubscription_start st ws symb of
               (Inl e, st') \<Rightarrow> (Inl e, st')
             | (Inr b, st') \<Rightarrow> (Inr (if b then Some (Unsubscribe symb) else None), st'))
          else (Inr None, logger UnknownMessageType st))"

definition onMessage_start :: "server \<Rightarrow> socket \<Rightarrow> raw_data \<Rightarrow> server" where
  "onMessage_start st ws raw =
     (case JSON_parse raw of
        Inl e \<Rightarrow> logger (ErrorProcessingMessage e) st
      | Inr data \<Rightarrow>
          (case handleMessage_start st ws data of
             (Inl e, st') \<Rightarrow> logger (ErrorProcessingMessage e) st'
           | (Inr None, st') \<Rightarrow> logger MessageReceived st'
           | (Inr (Some call), st') \<Rightarrow> st'\<lparr>pending := pending st' @ [Suspended call True]\<rparr>))"

text \<open>
  \<^verbatim>\<open>broadcastToSubscribers\<close> (lines 141-168). \<open>readyState\<close> gives each socket's
  \<^verbatim>\<open>readyState\<close> at the call. A \<^verbatim>\<open>Set\<close> is truthy even when empty, so only a missing entry
  skips the body. \<^verbatim>\<open>send\<close> on an open socket does not throw in \<^verbatim>\<open>ws\<close>; the frame is
  recorded as the object that \<^verbatim>\<open>JSON.stringify\<close> serialises.
\<close>

fun broadcast_loop ::
  "(socket \<Rightarrow> ready_state) \<Rightarrow> envelope \<Rightarrow> socket list \<Rightarrow> server \<times> nat \<times> nat
     \<Rightarrow> server \<times> nat \<times> nat" where
  "broadcast_loop readyState data [] acc = acc"
| "broadcast_loop readyState data (client # rest) (st, successCount, failCount) =
     (if readyState client = OPEN
      then broadcast_loop readyState data rest
             (st\<lparr>sent := sent st @ [(client, data)]\<rparr>, successCount + 1, failCount)
      else broadcast_loop readyState data rest (st, successCount, failCount + 1))"

definition broadcastToSubscribers ::
  "server \<Rightarrow> (socket \<Rightarrow> ready_state) \<Rightarrow> symbol \<Rightarrow> string \<Rightarrow> server" where
  "broadcastToSubscribers st readyState symb msg =
     (case globalSubscriptions st symb of
        None \<Rightarrow> st
      | Some subscribers \<Rightarrow>
          let data = \<lparr>event = ''event_orderbook_update'', stockSymbol = symb, message = msg\<rparr>
          in (case broadcast_loop readyState data subscribers (st, 0, 0) of
                (st', successCount, failCount) \<Rightarrow>
                  logger (BroadcastCompleted symb successCount failCount (length subscribers)) st'))"

text \<open>
  \<^verbatim>\<open>handleClientDisconnection\<close> (lines 170-183), the spec's \<open>onDisconnect\<close>. The calls of
  \<^verbatim>\<open>handleUnsubscription\<close> inside \<^verbatim>\<open>forEach\<close> are not awaited: each runs its first part and
  hands back a promise that nobody keeps. Deleting the element being visited does not
  disturb a \<^verbatim>\<open>Set\<close> iteration, and nothing is added meanwhile, so the loop visits the
  elements the set had at the start, in order. The result lists, for each symbol visited,
  the state of the promise when the function returns: rejected (\<open>Inl\<close>), pending on
  \<^verbatim>\<open>redisClient.unsubscribe\<close> (\<open>Inr True\<close>) or fulfilled (\<open>Inr False\<close>).
\<close>

fun unsubscribe_each ::
  "server \<Rightarrow> socket \<Rightarrow> symbol list \<Rightarrow> server \<times> (symbol \<times> (error + bool)) list" where
  "unsubscribe_each st ws [] = (st, [])"
| "unsubscribe_each st ws (symb # rest) =
     (case handleUnsubscription_start st ws symb of
        (r, st') \<Rightarrow>
          (case unsubscribe_each st' ws rest of
             (st'', promises) \<Rightarrow> (st'', (symb, r) # promises)))"

definition handleClientDisconnection ::
  "server \<Rightarrow> socket \<Rightarrow> server \<times> (symbol \<times> (error + bool)) list" where
  "handleClientDisconnection st ws =
     (let st1 = st\<lparr>usersCount := usersCount st - 1\<rparr>;
          st2 = logger (ClientDisconnected (usersCount st1)
                       (case clientSubscriptions st1 ws of None \<Rightarrow> 0 | Some s \<Rightarrow> length s)) st1
      in (case clientSubscriptions st2 ws of
            None \<Rightarrow> (st2\<lparr>clientSubscriptions := (clientSubscriptions st2)(ws := None)\<rparr>, [])
          | Some clientSubs \<Rightarrow>
              (case unsubscribe_each st2 ws clientSubs of
                 (st3, promises) \<Rightarrow>
                   (st3\<lparr>clientSubscriptions := (clientSubscriptions st3)(ws := None)\<rparr>,
                    promises))))"

text \<open>
  The \<^verbatim>\<open>"close"\<close> handler (line 61) in the event loop. The calls left pending join the
  pending ones. A promise already rejected with nobody holding it is an unhandled
  rejection: the sources install no handler for it, and under Node 18, the image of the
  repository's Dockerfile, the process then ends once the handler has returned.
\<close>

definition onClose :: "server \<Rightarrow> socket \<Rightarrow> server" where
  "onClose st ws =
     (case handleClientDisconnection st ws of
        (st', promises) \<Rightarrow>
          st'\<lparr>pending := pending st' @
                 map (\<lambda>p. Suspended (Unsubscribe (fst p)) False)
                   (filter (\<lambda>p. snd p = Inr True) promises),
              terminated := list_ex (\<lambda>p. isl (snd p)) promises\<rparr>)"

text \<open>
  The reply of Redis to a pending call: the suspended function resumes, and its result
  goes to whoever holds its promise. The message handler logs it (lines 49-57); a
  rejection of a promise that \<^verbatim>\<open>handleClientDisconnection\<close> dropped is unhandled and ends
  the process.
\<close>

definition resume_call :: "server \<Rightarrow> redis_call \<Rightarrow> bool \<Rightarrow> (error + unit) \<times> server" where
  "resume_call st call redis_ok =
     (case call of
        Subscribe symb \<Rightarrow> handleSubscription_resume st symb redis_ok
      | Unsubscribe symb \<Rightarrow> handleUnsubscription_resume st symb redis_ok)"

definition resume :: "server \<Rightarrow> suspended \<Rightarrow> bool \<Rightarrow> server" where
  "resume st s redis_ok =
     (case s of
        Suspended call awaited \<Rightarrow>
          (case resume_call st call redis_ok of
             (Inl e, st') \<Rightarrow>
               if awaited then logger (ErrorProcessingMessage e) st'
               else st'\<lparr>terminated := True\<rparr>
           | (Inr u, st') \<Rightarrow> if awaited then logger MessageReceived st' else st'))"

section \<open>Runs of the server\<close>

text \<open>
  The events of the event loop, each handled without interruption, as JavaScript runs a
  callback up to its next suspension: a connection is accepted (with a socket object that
  did not exist before), a frame arrives on a socket, a socket closes, Redis publishes on
  a channel, or Redis replies to the pending call at a given position (a reply for a
  position that holds no call changes nothing). Between the call of
  \<^verbatim>\<open>redisClient.subscribe\<close> or \<^verbatim>\<open>redisClient.unsubscribe\<close> and its reply, any other event
  can be handled. Once the process has ended nothing is handled any more.
\<close>

datatype event =
    Connection
  | Message socket raw_data
  | Close socket
  | Publish symbol string "socket \<Rightarrow> ready_state"
  | Reply nat bool

fun handle :: "server \<Rightarrow> event \<Rightarrow> server" where
  "handle st Connection = (onConnect st (nextSocket st))\<lparr>nextSocket := Suc (nextSocket st)\<rparr>"
| "handle st (Message ws raw) = onMessage_start st ws raw"
| "handle st (Close ws) = onClose st ws"
| "handle st (Publish symb msg readyState) = broadcastToSubscribers st readyState symb msg"
| "handle st (Reply k redis_ok) =
     (if k < length (pending st)
      then resume (st\<lparr>pending := take k (pending st) @ drop (Suc k) (pending st)\<rparr>)
             (pending st ! k) redis_ok
      else st)"

definition step :: "server \<Rightarrow> event \<Rightarrow> server" where
  "step st e = (if terminated st then st else handle st e)"

text \<open>A run: the events handled in order by the server just constructed.\<close>

definition run :: "event list \<Rightarrow> server" where
  "run evs = foldl step initial evs"

text \<open>The two well-formed frames, \<^verbatim>\<open>{"type": "subscribe", "stockSymbol": s}\<close> and its twin.\<close>

abbreviation subscribe_frame :: "symbol \<Rightarrow> raw_data" where
  "subscribe_frame symb \<equiv> Json (JsonObject (Some ''subscribe'') symb)"

abbreviation unsubscribe_frame :: "symbol \<Rightarrow> raw_data" where
  "unsubscribe_frame symb \<equiv> Json (JsonObject (Some ''unsubscribe'') symb)"

text \<open>The two indices read as the spec reads them: a missing entry is an empty set.\<close>

definition subscribers :: "server \<Rightarrow> symbol \<Rightarrow> socket list" where
  "subscribers st symb = (case globalSubscriptions st symb of None \<Rightarrow> [] | Some s \<Rightarrow> s)"

definition subscriptions :: "server \<Rightarrow> socket \<Rightarrow> symbol list" where
  "subscriptions st ws = (case clientSubscriptions st ws of None \<Rightarrow> [] | Some s \<Rightarrow> s)"

text \<open>Upstream subscribe calls minus upstream unsubscribe calls issued for a symbol.\<close>

definition upstream_balance :: "server \<Rightarrow> symbol \<Rightarrow> int" where
  "upstream_balance st symb =
     int (count_list (redisCalls st) (Subscribe symb))
       - int (count_list (redisCalls st) (Unsubscribe symb))"

section \<open>Invariants\<close>

text \<open>
  What every run keeps: a subscriber of a symbol has the symbol among its subscriptions,
  and a socket that does not exist yet has no entry in \<^verbatim>\<open>clientSubscriptions\<close>.
\<close>

definition backed :: "server \<Rightarrow> bool" where
  "backed st =
     (\<forall>ws symb. ws \<in> set (subscribers st symb) \<longrightarrow> symb \<in> set (subscriptions st ws))"

definition unborn :: "server \<Rightarrow> bool" where
  "unborn st = (\<forall>ws. nextSocket st \<le> ws \<longrightarrow> clientSubscriptions st ws = None)"

definition consistent :: "server \<Rightarrow> bool" where
  "consistent st = (backed st \<and> unborn st)"

text \<open>An upstream unsubscribe call for a symbol is waiting for its reply.\<close>

definition in_flight :: "symbol \<Rightarrow> server \<Rightarrow> bool" where
  "in_flight T st =
     (Suspended (Unsubscribe T) True \<in> set (pending st)
      \<or> Suspended (Unsubscribe T) False \<in> set (pending st))"

text \<open>
  The state of one symbol while its upstream calls are well matched: the two indices
  agree on it, its upstream calls balance to one exactly when it has a subscriber, its
  entry holds the empty set only while an unsubscribe call for it is in flight, and it
  has no subscriber during that time. \<open>matched_when\<close> takes "in flight" as a parameter,
  for the states inside \<^verbatim>\<open>handleClientDisconnection\<close>, whose suspended calls are not yet
  among the pending ones.
\<close>

definition matched_when :: "bool \<Rightarrow> symbol \<Rightarrow> server \<Rightarrow> bool" where
  "matched_when flying T st =
     ((\<forall>ws. (ws \<in> set (subscribers st T)) = (T \<in> set (subscriptions st ws)))
      \<and> upstream_balance st T = (if subscribers st T = [] then 0 else 1)
      \<and> (globalSubscriptions st T = Some [] \<longrightarrow> flying)
      \<and> (flying \<longrightarrow> subscribers st T = []))"

definition matched :: "symbol \<Rightarrow> server \<Rightarrow> bool" where
  "matched T st = matched_when (in_flight T st) T st"

text \<open>
  The two things that unmatch a symbol: a subscribe frame for it handled while an
  unsubscribe call for it is in flight, and a failing reply to an unsubscribe call for
  it. A run is undisturbed for the symbol when neither happens in it while the process is
  alive.
\<close>

fun disturbs :: "symbol \<Rightarrow> server \<Rightarrow> event \<Rightarrow> bool" where
  "disturbs T st (Message ws raw) = (raw = subscribe_frame T \<and> in_flight T st)"
| "disturbs T st (Reply k redis_ok) =
     (\<not> redis_ok \<and> k < length (pending st)
      \<and> (pending st ! k = Suspended (Unsubscribe T) True
           \<or> pending st ! k = Suspended (Unsubscribe T) False))"
| "disturbs T st e = False"

fun undisturbed :: "symbol \<Rightarrow> server \<Rightarrow> event list \<Rightarrow> bool" where
  "undisturbed T st [] = True"
| "undisturbed T st (e # evs) =
     ((terminated st \<or> \<not> disturbs T st e) \<and> undisturbed T (step st e) evs)"

text \<open>The router state of the spec: both indices and the upstream calls issued.\<close>

definition router_state ::
  "server \<Rightarrow> (symbol \<rightharpoonup> socket list) \<times> (socket \<rightharpoonup> symbol list) \<times> redis_call list" where
  "router_state st = (globalSubscriptions st, clientSubscriptions st, redisCalls st)"

text \<open>
  Inbound frames that reach neither \<^verbatim>\<open>handleSubscription\<close> nor
  \<^verbatim>\<open>handleUnsubscription\<close>, and what the message handler logs for each.
\<close>

fun ignored_frame :: "raw_data \<Rightarrow> bool" where
  "ignored_frame Malformed = True"
| "ignored_frame (Json JsonNull) = True"
| "ignored_frame (Json (JsonObject ty symb)) =
     (ty \<noteq> Some ''subscribe'' \<and> ty \<noteq> Some ''unsubscribe'')"

fun ignored_frame_log :: "raw_data \<Rightarrow> log_entry list" where
  "ignored_frame_log Malformed = [ErrorProcessingMessage SyntaxError]"
| "ignored_frame_log (Json JsonNull) = [ErrorProcessingMessage TypeError]"
| "ignored_frame_log (Json (JsonObject ty symb)) = [UnknownMessageType, MessageReceived]"

text \<open>Two assignments of \<^verbatim>\<open>readyState\<close> used in examples.\<close>

definition all_open :: "socket \<Rightarrow> ready_state" where
  "all_open ws = OPEN"

definition all_open_but :: "socket \<Rightarrow> socket \<Rightarrow> ready_state" where
  "all_open_but c ws = (if ws = c then CLOSED else OPEN)"

section \<open>Basic facts\<close>

lemma set_set_add [simp]: "set (set_add s x) = insert x (set s)"
  by (auto simp: set_add_def)

lemma set_set_delete [simp]: "set (set_delete s x) = set s - {x}"
  by (simp add: set_delete_def)

lemma set_add_Nil [simp]: "set_add [] x = [x]"
  by (simp add: set_add_def)

lemma set_add_not_Nil [simp]: "set_add s x \<noteq> []"
  by (auto simp: set_add_def)

lemma set_delete_Nil [simp]: "set_delete [] x = []"
  by (simp add: set_delete_def)

lemma logger_fields [simp]:
  "globalSubscriptions (logger e st) = globalSubscriptions st"
  "clientSubscriptions (logger e st) = clientSubscriptions st"
  "usersCount (logger e st) = usersCount st"
  "redisCalls (logger e st) = redisCalls st"
  "sent (logger e st) = sent st"
  "nextSocket (logger e st) = nextSocket st"
  "pending (logger e st) = pending st"
  "terminated (logger e st) = terminated st"
  "logs (logger e st) = logs st @ [e]"
  by (simp_all add: logger_def)

lemma subscribers_logger [simp]: "subscribers (logger e st) = subscribers st"
  by (simp add: subscribers_def fun_eq_iff)

lemma subscriptions_logger [simp]: "subscriptions (logger e st) = subscriptions st"
  by (simp add: subscriptions_def fun_eq_iff)

lemma upstream_balance_logger [simp]: "upstream_balance (logger e st) = upstream_balance st"
  by (simp add: upstream_balance_def fun_eq_iff)

subsection \<open>\<^verbatim>\<open>handleSubscription\<close>, field by field\<close>

lemma handleSubscription_subscriptions:
  "subscriptions (snd (handleSubscription st ws symb ok)) w =
     (if w = ws \<and> clientSubscriptions st ws \<noteq> None
      then set_add (subscriptions st ws) symb else subscriptions st w)"
  by (auto simp: handleSubscription_def subscriptions_def set_has_def set_add_def Let_def
           split: option.splits)

lemma handleSubscription_subscribers:
  "subscribers (snd (handleSubscription st ws symb ok)) s =
     (if s = symb \<and> clientSubscriptions st ws \<noteq> None \<and> symb \<notin> set (subscriptions st ws)
      then set_add (subscribers st symb) ws else subscribers st s)"
  by (auto simp: handleSubscription_def subscriptions_def subscribers_def set_has_def Let_def
           split: option.splits)

lemma handleSubscription_nextSocket [simp]:
  "nextSocket (snd (handleSubscription st ws symb ok)) = nextSocket st"
  by (auto simp: handleSubscription_def Let_def split: option.splits)

lemma handleSubscription_dom:
  "(clientSubscriptions (snd (handleSubscription st ws symb ok)) w = None) =
     (clientSubscriptions st w = None)"
  by (auto simp: handleSubscription_def Let_def split: option.splits)

lemma handleSubscription_sent [simp]:
  "sent (snd (handleSubscription st ws symb ok)) = sent st"
  by (auto simp: handleSubscription_def Let_def split: option.splits)

lemma handleSubscription_loop [simp]:
  "pending (snd (handleSubscription st ws symb ok)) = pending st"
  "terminated (snd (handleSubscription st ws symb ok)) = terminated st"
  "usersCount (snd (handleSubscription st ws symb ok)) = usersCount st"
  by (auto simp: handleSubscription_def Let_def split: option.splits)

lemma handleSubscription_redisCalls:
  "redisCalls (snd (handleSubscription st ws symb ok)) =
     redisCalls st @
       (if clientSubscriptions st ws \<noteq> None \<and> symb \<notin> set (subscriptions st ws)
           \<and> globalSubscriptions st symb = None
        then [Subscribe symb] else [])"
  by (auto simp: handleSubscription_def subscriptions_def set_has_def Let_def
           split: option.splits)

lemma handleSubscription_entries:
  "globalSubscriptions (snd (handleSubscription st ws symb ok)) s = Some [] \<Longrightarrow>
     globalSubscriptions st s = Some []"
  by (auto simp: handleSubscription_def Let_def split: option.splits if_splits)

subsection \<open>\<^verbatim>\<open>handleUnsubscription\<close>, field by field\<close>

lemma start_subscriptions:
  "subscriptions (snd (handleUnsubscription_start st ws symb)) w =
     (if w = ws then set_delete (subscriptions st ws) symb else subscriptions st w)"
  by (auto simp: handleUnsubscription_start_def subscriptions_def set_has_def set_delete_def
           Let_def split: option.splits)

lemma start_subscribers:
  "subscribers (snd (handleUnsubscription_start st ws symb)) s =
     (if s = symb \<and> symb \<in> set (subscriptions st ws)
      then set_delete (subscribers st symb) ws else subscribers st s)"
  by (auto simp: handleUnsubscription_start_def subscriptions_def subscribers_def set_has_def
           Let_def split: option.splits)

lemma start_nextSocket [simp]:
  "nextSocket (snd (handleUnsubscription_start st ws symb)) = nextSocket st"
  by (auto simp: handleUnsubscription_start_def Let_def split: option.splits)

lemma start_dom:
  "(clientSubscriptions (snd (handleUnsubscription_start st ws symb)) w = None) =
     (clientSubscriptions st w = None)"
  by (auto simp: handleUnsubscription_start_def Let_def split: option.splits)

lemma start_sent [simp]:
  "sent (snd (handleUnsubscription_start st ws symb)) = sent st"
  by (auto simp: handleUnsubscription_start_def Let_def split: option.splits)

lemma start_loop [simp]:
  "pending (snd (handleUnsubscription_start st ws symb)) = pending st"
  "terminated (snd (handleUnsubscription_start st ws symb)) = terminated st"
  "usersCount (snd (handleUnsubscription_start st ws symb)) = usersCount st"
  by (auto simp: handleUnsubscription_start_def Let_def split: option.splits)

lemma start_suspended:
  "(fst (handleUnsubscription_start st ws symb) = Inr True) =
     (symb \<in> set (subscriptions st ws) \<and> globalSubscriptions st symb \<noteq> None
        \<and> set_delete (subscribers st symb) ws = [])"
  by (auto simp: handleUnsubscription_start_def subscriptions_def subscribers_def set_has_def
           Let_def split: option.splits)

lemma start_redisCalls:
  "redisCalls (snd (handleUnsubscription_start st ws symb)) =
     redisCalls st @
       (if fst (handleUnsubscription_start st ws symb) = Inr True
        then [Unsubscribe symb] else [])"
  by (auto simp: handleUnsubscription_start_def Let_def split: option.splits)

section \<open>The functions and their two parts\<close>

lemma subscription_start_state:
  "snd (handleSubscription_start st ws symb) = snd (handleSubscription st ws symb False)"
  by (simp add: handleSubscription_start_def handleSubscription_def Let_def
           split: option.splits)

lemma subscription_start_suspended:
  "(fst (handleSubscription_start st ws symb) = Inr True) =
     (clientSubscriptions st ws \<noteq> None \<and> symb \<notin> set (subscriptions st ws)
        \<and> globalSubscriptions st symb = None)"
  by (auto simp: handleSubscription_start_def subscriptions_def set_has_def Let_def
           split: option.splits)

lemma handleSubscription_split:
  "handleSubscription st ws symb ok =
     (case handleSubscription_start st ws symb of
        (Inl e, st') \<Rightarrow> (Inl e, st')
      | (Inr False, st') \<Rightarrow> (Inr (), st')
      | (Inr True, st') \<Rightarrow> handleSubscription_resume st' symb ok)"
  by (simp add: handleSubscription_def handleSubscription_start_def
        handleSubscription_resume_def Let_def split: option.splits)

lemma handleUnsubscription_snd:
  "snd (handleUnsubscription st ws symb ok) =
     (if fst (handleUnsubscription_start st ws symb) = Inr True
      then snd (handleUnsubscription_resume (snd (handleUnsubscription_start st ws symb)) symb ok)
      else snd (handleUnsubscription_start st ws symb))"
  by (auto simp: handleUnsubscription_def split: prod.splits sum.splits bool.splits)

lemma onMessage_eq:
  "onMessage st ws raw ok =
     (case raw of
        Malformed \<Rightarrow> logger (ErrorProcessingMessage SyntaxError) st
      | Json data \<Rightarrow>
          logger (case fst (handleMessage st ws data ok) of
                    Inl e \<Rightarrow> ErrorProcessingMessage e | Inr u \<Rightarrow> MessageReceived)
                 (snd (handleMessage st ws data ok)))"
  by (simp add: onMessage_def JSON_parse_def split: raw_data.splits prod.splits sum.splits)

text \<open>
  A frame followed at once by the reply to the call it has left pending, if any, is the
  message handler taken from call to settled promise.
\<close>

lemma frame_cases:
  obtains "ignored_frame raw"
  | symb where "raw = subscribe_frame symb"
  | symb where "raw = unsubscribe_frame symb"
proof (cases raw)
  case Malformed
  then show ?thesis using that(1) by simp
next
  case (Json data)
  then show ?thesis using that by (cases data) auto
qed

lemma onMessage_start_ignored:
  "ignored_frame raw \<Longrightarrow> onMessage_start st ws raw = onMessage st ws raw ok"
  by (cases raw rule: ignored_frame.cases)
     (simp_all add: onMessage_start_def onMessage_def JSON_parse_def handleMessage_start_def
        handleMessage_def)

lemma subscription_start_loop [simp]:
  "pending (snd (handleSubscription_start st ws symb)) = pending st"
  "terminated (snd (handleSubscription_start st ws symb)) = terminated st"
  by (simp_all add: subscription_start_state)

lemma onMessage_start_subscribe:
  "onMessage_start st ws (subscribe_frame symb) =
     (case fst (handleSubscription_start st ws symb) of
        Inl e \<Rightarrow> logger (ErrorProcessingMessage e) (snd (handleSubscription_start st ws symb))
      | Inr b \<Rightarrow>
          if b then (snd (handleSubscription_start st ws symb))
                      \<lparr>pending := pending st @ [Suspended (Subscribe symb) True]\<rparr>
          else logger MessageReceived (snd (handleSubscription_start st ws symb)))"
proof -
  obtain r st' where s: "handleSubscription_start st ws symb = (r, st')"
    by (cases "handleSubscription_start st ws symb")
  have p: "pending st' = pending st"
    using subscription_start_loop(1) [of st ws symb] by (simp add: s)
  show ?thesis
    by (cases r) (simp_all add: onMessage_start_def JSON_parse_def handleMessage_start_def s p)
qed

lemma onMessage_start_unsubscribe:
  "onMessage_start st ws (unsubscribe_frame symb) =
     (case fst (handleUnsubscription_start st ws symb) of
        Inl e \<Rightarrow> logger (ErrorProcessingMessage e) (snd (handleUnsubscription_start st ws symb))
      | Inr b \<Rightarrow>
          if b then (snd (handleUnsubscription_start st ws symb))
                      \<lparr>pending := pending st @ [Suspended (Unsubscribe symb) True]\<rparr>
          else logger MessageReceived (snd (handleUnsubscription_start st ws symb)))"
proof -
  obtain r st' where s: "handleUnsubscription_start st ws symb = (r, st')"
    by (cases "handleUnsubscription_start st ws symb")
  have p: "pending st' = pending st"
    using start_loop(1) [of st ws symb] by (simp add: s)
  show ?thesis
    by (cases r) (simp_all add: onMessage_start_def JSON_parse_def handleMessage_start_def s p)
qed

lemma reply_to_last:
  "\<not> terminated st \<Longrightarrow> pending st = p \<Longrightarrow>
     step (st\<lparr>pending := p @ [s]\<rparr>) (Reply (length p) ok) = resume st s ok"
  by (cases st) (simp add: step_def)

lemma reply_to_none:
  "step st (Reply (length (pending st)) ok) = st"
  by (simp add: step_def)

lemma frame_then_reply:
  assumes "\<not> terminated st"
  shows "step (step st (Message ws raw)) (Reply (length (pending st)) ok) =
           onMessage st ws raw ok"
proof (cases raw rule: frame_cases)
  case 1
  have e: "onMessage_start st ws raw = onMessage st ws raw ok"
    using 1 by (rule onMessage_start_ignored)
  from 1 have "pending (onMessage st ws raw ok) = pending st"
    by (cases raw rule: ignored_frame.cases)
       (simp_all add: onMessage_def JSON_parse_def handleMessage_def)
  then show ?thesis
    using assms reply_to_none [of "onMessage st ws raw ok" ok] by (simp add: step_def e)
next
  case (2 symb)
  obtain r st' where s: "handleSubscription_start st ws symb = (r, st')"
    by (cases "handleSubscription_start st ws symb")
  have p: "pending st' = pending st" and t: "\<not> terminated st'"
    using subscription_start_loop [of st ws symb] assms by (simp_all add: s)
  have a: "onMessage st ws raw ok =
      (case r of
         Inl e \<Rightarrow> logger (ErrorProcessingMessage e) st'
       | Inr b \<Rightarrow> if b then resume st' (Suspended (Subscribe symb) True) ok
                  else logger MessageReceived st')"
    by (cases r)
       (simp_all add: 2 onMessage_def JSON_parse_def handleMessage_def handleSubscription_split
          s resume_def resume_call_def split: prod.splits sum.splits)
  have b: "step st (Message ws raw) =
      (case r of
         Inl e \<Rightarrow> logger (ErrorProcessingMessage e) st'
       | Inr b \<Rightarrow> if b then st'\<lparr>pending := pending st @ [Suspended (Subscribe symb) True]\<rparr>
                  else logger MessageReceived st')"
    using assms by (cases r) (simp_all add: step_def 2 onMessage_start_subscribe s)
  show ?thesis
  proof (cases r)
    case (Inl e)
    then show ?thesis
      using reply_to_none [of "logger (ErrorProcessingMessage e) st'" ok]
      by (simp add: a b p)
  next
    case (Inr susp)
    then show ?thesis
      using reply_to_none [of "logger MessageReceived st'" ok]
        reply_to_last [OF t p, of "Suspended (Subscribe symb) True" ok]
      by (simp add: a b p)
  qed
next
  case (3 symb)
  obtain r st' where s: "handleUnsubscription_start st ws symb = (r, st')"
    by (cases "handleUnsubscription_start st ws symb")
  have p: "pending st' = pending st" and t: "\<not> terminated st'"
    using start_loop [of st ws symb] assms by (simp_all add: s)
  have a: "onMessage st ws raw ok =
      (case r of
         Inl e \<Rightarrow> logger (ErrorProcessingMessage e) st'
       | Inr b \<Rightarrow> if b then resume st' (Suspended (Unsubscribe symb) True) ok
                  else logger MessageReceived st')"
    by (cases r)
       (simp_all add: 3 onMessage_def JSON_parse_def handleMessage_def handleUnsubscription_def
          s resume_def resume_call_def split: prod.splits sum.splits)
  have b: "step st (Message ws raw) =
      (case r of
         Inl e \<Rightarrow> logger (ErrorProcessingMessage e) st'
       | Inr b \<Rightarrow> if b then st'\<lparr>pending := pending st @ [Suspended (Unsubscribe symb) True]\<rparr>
                  else logger MessageReceived st')"
    using assms by (cases r) (simp_all add: step_def 3 onMessage_start_unsubscribe s)
  show ?thesis
  proof (cases r)
    case (Inl e)
    then show ?thesis
      using reply_to_none [of "logger (ErrorProcessingMessage e) st'" ok]
      by (simp add: a b p)
  next
    case (Inr susp)
    then show ?thesis
      using reply_to_none [of "logger MessageReceived st'" ok]
        reply_to_last [OF t p, of "Suspended (Unsubscribe symb) True" ok]
      by (simp add: a b p)
  qed
qed

text \<open>The message handler sends nothing and never ends the process.\<close>

lemma handleUnsubscription_quiet:
  "sent (snd (handleUnsubscription st ws symb ok)) = sent st"
  "terminated (snd (handleUnsubscription st ws symb ok)) = terminated st"
  by (simp_all add: handleUnsubscription_snd handleUnsubscription_resume_def)

lemma onMessage_quiet:
  "sent (onMessage st ws raw ok) = sent st"
  "terminated (onMessage st ws raw ok) = terminated st"
proof -
  have "sent (snd (handleMessage st ws data ok)) = sent st
      \<and> terminated (snd (handleMessage st ws data ok)) = terminated st" for data
    by (cases data) (simp_all add: handleMessage_def handleUnsubscription_quiet)
  then show "sent (onMessage st ws raw ok) = sent st"
    "terminated (onMessage st ws raw ok) = terminated st"
    by (simp_all add: onMessage_eq split: raw_data.splits)
qed

lemma onMessage_start_quiet:
  "sent (onMessage_start st ws raw) = sent st"
  "terminated (onMessage_start st ws raw) = terminated st"
proof -
  have "sent (onMessage_start st ws raw) = sent st
      \<and> terminated (onMessage_start st ws raw) = terminated st"
  proof (cases raw rule: frame_cases)
    case 1
    then have "onMessage_start st ws raw = onMessage st ws raw True"
      by (rule onMessage_start_ignored)
    then show ?thesis by (simp add: onMessage_quiet)
  next
    case (2 symb)
    then show ?thesis
      by (simp add: onMessage_start_subscribe subscription_start_state split: sum.splits)
  next
    case (3 symb)
    then show ?thesis
      by (simp add: onMessage_start_unsubscribe split: sum.splits)
  qed
  then show "sent (onMessage_start st ws raw) = sent st"
    "terminated (onMessage_start st ws raw) = terminated st"
    by simp_all
qed

section \<open>What every run keeps\<close>

lemma view_fields [simp]:
  "subscribers (st\<lparr>usersCount := n\<rparr>) = subscribers st"
  "subscribers (st\<lparr>clientSubscriptions := c\<rparr>) = subscribers st"
  "subscribers (st\<lparr>nextSocket := k\<rparr>) = subscribers st"
  "subscribers (st\<lparr>pending := p\<rparr>) = subscribers st"
  "subscribers (st\<lparr>terminated := b\<rparr>) = subscribers st"
  "subscriptions (st\<lparr>usersCount := n\<rparr>) = subscriptions st"
  "subscriptions (st\<lparr>nextSocket := k\<rparr>) = subscriptions st"
  "subscriptions (st\<lparr>pending := p\<rparr>) = subscriptions st"
  "subscriptions (st\<lparr>terminated := b\<rparr>) = subscriptions st"
  "upstream_balance (st\<lparr>usersCount := n\<rparr>) = upstream_balance st"
  "upstream_balance (st\<lparr>clientSubscriptions := c\<rparr>) = upstream_balance st"
  "upstream_balance (st\<lparr>nextSocket := k\<rparr>) = upstream_balance st"
  "upstream_balance (st\<lparr>pending := p\<rparr>) = upstream_balance st"
  "upstream_balance (st\<lparr>terminated := b\<rparr>) = upstream_balance st"
  by (simp_all add: subscribers_def subscriptions_def upstream_balance_def fun_eq_iff)

lemma backed_fields [simp]:
  "backed (st\<lparr>usersCount := n\<rparr>) = backed st"
  "backed (st\<lparr>nextSocket := k\<rparr>) = backed st"
  "backed (st\<lparr>pending := p\<rparr>) = backed st"
  "backed (st\<lparr>terminated := b\<rparr>) = backed st"
  "backed (logger e st) = backed st"
  by (simp_all add: backed_def)

lemma unborn_fields [simp]:
  "unborn (st\<lparr>usersCount := n\<rparr>) = unborn st"
  "unborn (st\<lparr>pending := p\<rparr>) = unborn st"
  "unborn (st\<lparr>terminated := b\<rparr>) = unborn st"
  "unborn (logger e st) = unborn st"
  by (simp_all add: unborn_def)

subsection \<open>Subscribing and unsubscribing\<close>

lemma handleSubscription_backed:
  "backed st \<Longrightarrow> backed (snd (handleSubscription st ws symb ok))"
  unfolding backed_def
  by (auto simp: handleSubscription_subscriptions handleSubscription_subscribers)

lemma handleSubscription_unborn:
  "unborn st \<Longrightarrow> unborn (snd (handleSubscription st ws symb ok))"
  by (simp add: unborn_def handleSubscription_dom)

lemma start_backed:
  "backed st \<Longrightarrow> backed (snd (handleUnsubscription_start st ws symb))"
  unfolding backed_def
  by (auto simp: start_subscriptions start_subscribers)

lemma start_unborn:
  "unborn st \<Longrightarrow> unborn (snd (handleUnsubscription_start st ws symb))"
  by (simp add: unborn_def start_dom)

lemma unsubscription_resume_subscribers:
  "subscribers (snd (handleUnsubscription_resume st symb ok)) s =
     (if ok \<and> s = symb then [] else subscribers st s)"
  by (simp add: handleUnsubscription_resume_def subscribers_def)

lemma unsubscription_resume_globalSubscriptions:
  "globalSubscriptions (snd (handleUnsubscription_resume st symb ok)) s =
     (if ok \<and> s = symb then None else globalSubscriptions st s)"
  by (simp add: handleUnsubscription_resume_def)

lemma unsubscription_resume_fields [simp]:
  "clientSubscriptions (snd (handleUnsubscription_resume st symb ok)) = clientSubscriptions st"
  "redisCalls (snd (handleUnsubscription_resume st symb ok)) = redisCalls st"
  "sent (snd (handleUnsubscription_resume st symb ok)) = sent st"
  "nextSocket (snd (handleUnsubscription_resume st symb ok)) = nextSocket st"
  "pending (snd (handleUnsubscription_resume st symb ok)) = pending st"
  "terminated (snd (handleUnsubscription_resume st symb ok)) = terminated st"
  by (simp_all add: handleUnsubscription_resume_def)

lemma subscription_resume_fields [simp]:
  "globalSubscriptions (snd (handleSubscription_resume st symb ok)) = globalSubscriptions st"
  "clientSubscriptions (snd (handleSubscription_resume st symb ok)) = clientSubscriptions st"
  "redisCalls (snd (handleSubscription_resume st symb ok)) = redisCalls st"
  "sent (snd (handleSubscription_resume st symb ok)) = sent st"
  "nextSocket (snd (handleSubscription_resume st symb ok)) = nextSocket st"
  "pending (snd (handleSubscription_resume st symb ok)) = pending st"
  "terminated (snd (handleSubscription_resume st symb ok)) = terminated st"
  by (simp_all add: handleSubscription_resume_def)

text \<open>What a reply changes: the entry of an unsubscribed symbol, the log, the process.\<close>

lemma resume_globalSubscriptions:
  "globalSubscriptions (resume st (Suspended call a) ok) s =
     (if ok \<and> call = Unsubscribe s then None else globalSubscriptions st s)"
  by (cases call)
     (auto simp: resume_def resume_call_def handleUnsubscription_resume_def
        handleSubscription_resume_def)

lemma resume_fields [simp]:
  "clientSubscriptions (resume st s ok) = clientSubscriptions st"
  "redisCalls (resume st s ok) = redisCalls st"
  "sent (resume st s ok) = sent st"
  "nextSocket (resume st s ok) = nextSocket st"
  "pending (resume st s ok) = pending st"
proof -
  obtain call a where s: "s = Suspended call a" by (cases s)
  show "clientSubscriptions (resume st s ok) = clientSubscriptions st"
    "redisCalls (resume st s ok) = redisCalls st"
    "sent (resume st s ok) = sent st"
    "nextSocket (resume st s ok) = nextSocket st"
    "pending (resume st s ok) = pending st"
    unfolding s
    by (cases call;
        simp add: resume_def resume_call_def handleUnsubscription_resume_def
          handleSubscription_resume_def)+
qed


lemma resume_subscribers:
  "subscribers (resume st (Suspended call a) ok) s =
     (if ok \<and> call = Unsubscribe s then [] else subscribers st s)"
  by (simp add: subscribers_def resume_globalSubscriptions)

lemma resume_subscriptions [simp]: "subscriptions (resume st s ok) = subscriptions st"
  by (simp add: subscriptions_def fun_eq_iff)

lemma resume_balance [simp]: "upstream_balance (resume st s ok) = upstream_balance st"
  by (simp add: upstream_balance_def fun_eq_iff)

lemma resume_backed: "backed st \<Longrightarrow> backed (resume st s ok)"
  by (cases s) (simp add: backed_def resume_subscribers)

lemma resume_unborn: "unborn st \<Longrightarrow> unborn (resume st s ok)"
  by (simp add: unborn_def)

subsection \<open>\<^verbatim>\<open>handleClientDisconnection\<close>\<close>

lemma each_Cons:
  "unsubscribe_each st ws (symb # rest) =
     (fst (unsubscribe_each (snd (handleUnsubscription_start st ws symb)) ws rest),
      (symb, fst (handleUnsubscription_start st ws symb))
        # snd (unsubscribe_each (snd (handleUnsubscription_start st ws symb)) ws rest))"
  by (simp split: prod.splits)

declare unsubscribe_each.simps(2) [simp del]

lemma each_backed:
  "backed st \<Longrightarrow> backed (fst (unsubscribe_each st ws syms))"
  by (induction syms arbitrary: st) (simp_all add: each_Cons start_backed)

lemma each_subscriptions:
  "set (subscriptions (fst (unsubscribe_each st ws syms)) w) =
     (if w = ws then set (subscriptions st ws) - set syms else set (subscriptions st w))"
  by (induction syms arbitrary: st) (auto simp: each_Cons start_subscriptions)

lemma each_dom:
  "(clientSubscriptions (fst (unsubscribe_each st ws syms)) w = None) =
     (clientSubscriptions st w = None)"
  by (induction syms arbitrary: st) (simp_all add: each_Cons start_dom)

lemma each_fields [simp]:
  "nextSocket (fst (unsubscribe_each st ws syms)) = nextSocket st"
  "sent (fst (unsubscribe_each st ws syms)) = sent st"
  "pending (fst (unsubscribe_each st ws syms)) = pending st"
  "terminated (fst (unsubscribe_each st ws syms)) = terminated st"
  by (induction syms arbitrary: st; simp add: each_Cons)+

lemma disconnection_eq:
  "handleClientDisconnection st ws =
     (let st2 = logger (ClientDisconnected (usersCount st - 1) (length (subscriptions st ws)))
                  (st\<lparr>usersCount := usersCount st - 1\<rparr>);
          r = unsubscribe_each st2 ws (subscriptions st ws)
      in ((fst r)\<lparr>clientSubscriptions := (clientSubscriptions (fst r))(ws := None)\<rparr>, snd r))"
  by (auto simp: handleClientDisconnection_def subscriptions_def Let_def
           split: option.splits prod.splits)

lemma disconnection_subscribers:
  "subscribers (fst (handleClientDisconnection st ws)) =
     subscribers (fst (unsubscribe_each
        (logger (ClientDisconnected (usersCount st - 1) (length (subscriptions st ws)))
                  (st\<lparr>usersCount := usersCount st - 1\<rparr>)) ws (subscriptions st ws)))"
  by (simp add: disconnection_eq Let_def)

lemma disconnection_subscriptions:
  "set (subscriptions (fst (handleClientDisconnection st ws)) w) =
     (if w = ws then {} else set (subscriptions st w))"
  using each_subscriptions [of "logger (ClientDisconnected (usersCount st - 1)
      (length (subscriptions st ws))) (st\<lparr>usersCount := usersCount st - 1\<rparr>)"
      ws "subscriptions st ws" w]
  by (auto simp: disconnection_eq Let_def subscriptions_def)

lemma disconnection_clientSubscriptions:
  "(clientSubscriptions (fst (handleClientDisconnection st ws)) w = None) =
     (w = ws \<or> clientSubscriptions st w = None)"
  by (simp add: disconnection_eq Let_def each_dom)

lemma disconnection_fields [simp]:
  "nextSocket (fst (handleClientDisconnection st ws)) = nextSocket st"
  "sent (fst (handleClientDisconnection st ws)) = sent st"
  "pending (fst (handleClientDisconnection st ws)) = pending st"
  "terminated (fst (handleClientDisconnection st ws)) = terminated st"
  by (simp_all add: disconnection_eq Let_def)

lemma disconnection_backed:
  assumes "backed st"
  shows "backed (fst (handleClientDisconnection st ws))"
proof -
  let ?st2 = "logger (ClientDisconnected (usersCount st - 1) (length (subscriptions st ws)))
                  (st\<lparr>usersCount := usersCount st - 1\<rparr>)"
  let ?st3 = "fst (unsubscribe_each ?st2 ws (subscriptions st ws))"
  have b3: "backed ?st3" using assms by (simp add: each_backed)
  have s3: "set (subscriptions ?st3 w) =
      (if w = ws then {} else set (subscriptions st w))" for w
    using each_subscriptions [of ?st2 ws "subscriptions st ws" w] by simp
  show ?thesis
    unfolding backed_def disconnection_subscribers disconnection_subscriptions
    using b3 s3 unfolding backed_def by (metis empty_iff)
qed

lemma onClose_eq:
  "onClose st ws =
     (fst (handleClientDisconnection st ws))
       \<lparr>pending := pending st @
          map (\<lambda>p. Suspended (Unsubscribe (fst p)) False)
            (filter (\<lambda>p. snd p = Inr True) (snd (handleClientDisconnection st ws))),
        terminated := list_ex (\<lambda>p. isl (snd p)) (snd (handleClientDisconnection st ws))\<rparr>"
proof -
  obtain st' promises where h: "handleClientDisconnection st ws = (st', promises)"
    by (cases "handleClientDisconnection st ws")
  have "pending st' = pending st"
    using disconnection_fields(3) [of st ws] by (simp add: h)
  then show ?thesis by (simp add: onClose_def h)
qed

subsection \<open>\<^verbatim>\<open>broadcastToSubscribers\<close>\<close>

lemma broadcast_loop_fields [simp]:
  "globalSubscriptions (fst (broadcast_loop rs d subs (st, a, b))) = globalSubscriptions st"
  "clientSubscriptions (fst (broadcast_loop rs d subs (st, a, b))) = clientSubscriptions st"
  "redisCalls (fst (broadcast_loop rs d subs (st, a, b))) = redisCalls st"
  "usersCount (fst (broadcast_loop rs d subs (st, a, b))) = usersCount st"
  "logs (fst (broadcast_loop rs d subs (st, a, b))) = logs st"
  "nextSocket (fst (broadcast_loop rs d subs (st, a, b))) = nextSocket st"
  "pending (fst (broadcast_loop rs d subs (st, a, b))) = pending st"
  "terminated (fst (broadcast_loop rs d subs (st, a, b))) = terminated st"
  by (induction subs arbitrary: st a b; simp)+

lemma broadcast_loop_sent:
  "sent (fst (broadcast_loop rs d subs (st, a, b))) =
     sent st @ map (\<lambda>client. (client, d)) (filter (\<lambda>client. rs client = OPEN) subs)"
  by (induction subs arbitrary: st a b) simp_all

lemma broadcast_loop_counts:
  "snd (broadcast_loop rs d subs (st, a, b)) =
     (a + length (filter (\<lambda>client. rs client = OPEN) subs),
      b + length (filter (\<lambda>client. rs client \<noteq> OPEN) subs))"
  by (induction subs arbitrary: st a b) simp_all

lemma broadcast_eq:
  "broadcastToSubscribers st rs symb msg =
     (case globalSubscriptions st symb of
        None \<Rightarrow> st
      | Some subs \<Rightarrow>
          logger (BroadcastCompleted symb
                    (length (filter (\<lambda>client. rs client = OPEN) subs))
                    (length (filter (\<lambda>client. rs client \<noteq> OPEN) subs)) (length subs))
            (fst (broadcast_loop rs
                    \<lparr>event = ''event_orderbook_update'', stockSymbol = symb, message = msg\<rparr>
                    subs (st, 0, 0))))"
proof (cases "globalSubscriptions st symb")
  case None
  then show ?thesis by (simp add: broadcastToSubscribers_def)
next
  case (Some subs)
  obtain st' a b where r: "broadcast_loop rs
      \<lparr>event = ''event_orderbook_update'', stockSymbol = symb, message = msg\<rparr>
      subs (st, 0, 0) = (st', a, b)"
    by (metis prod_cases3)
  from broadcast_loop_counts [of rs
      "\<lparr>event = ''event_orderbook_update'', stockSymbol = symb, message = msg\<rparr>"
      subs st 0 0] r
  have "a = length (filter (\<lambda>client. rs client = OPEN) subs)"
       "b = length (filter (\<lambda>client. rs client \<noteq> OPEN) subs)"
    by simp_all
  with Some r show ?thesis by (simp add: broadcastToSubscribers_def)
qed

lemma broadcast_fields [simp]:
  "globalSubscriptions (broadcastToSubscribers st rs symb msg) = globalSubscriptions st"
  "clientSubscriptions (broadcastToSubscribers st rs symb msg) = clientSubscriptions st"
  "redisCalls (broadcastToSubscribers st rs symb msg) = redisCalls st"
  "usersCount (broadcastToSubscribers st rs symb msg) = usersCount st"
  "nextSocket (broadcastToSubscribers st rs symb msg) = nextSocket st"
  "pending (broadcastToSubscribers st rs symb msg) = pending st"
  "terminated (broadcastToSubscribers st rs symb msg) = terminated st"
  by (simp_all add: broadcast_eq split: option.splits)

lemma broadcast_sent:
  "sent (broadcastToSubscribers st rs symb msg) =
     sent st @ map (\<lambda>client. (client,
         \<lparr>event = ''event_orderbook_update'', stockSymbol = symb, message = msg\<rparr>))
       (filter (\<lambda>client. rs client = OPEN) (subscribers st symb))"
  by (simp add: broadcast_eq broadcast_loop_sent subscribers_def split: option.splits)

lemma broadcast_subscribers [simp]:
  "subscribers (broadcastToSubscribers st rs symb msg) = subscribers st"
  by (simp add: subscribers_def fun_eq_iff)

lemma broadcast_subscriptions [simp]:
  "subscriptions (broadcastToSubscribers st rs symb msg) = subscriptions st"
  by (simp add: subscriptions_def fun_eq_iff)

lemma broadcast_balance [simp]:
  "upstream_balance (broadcastToSubscribers st rs symb msg) = upstream_balance st"
  by (simp add: upstream_balance_def fun_eq_iff)

subsection \<open>Every step keeps the subscribers backed and the unborn sockets unregistered\<close>

lemma onConnect_subscribers [simp]: "subscribers (onConnect st ws) = subscribers st"
  by (simp add: onConnect_def subscribers_def fun_eq_iff Let_def)

lemma onConnect_subscriptions:
  "subscriptions (onConnect st ws) w = (if w = ws then [] else subscriptions st w)"
  by (simp add: onConnect_def subscriptions_def Let_def)

lemma onConnect_clientSubscriptions:
  "clientSubscriptions (onConnect st ws) = (clientSubscriptions st)(ws \<mapsto> [])"
  by (simp add: onConnect_def Let_def)

lemma onConnect_fields [simp]:
  "globalSubscriptions (onConnect st ws) = globalSubscriptions st"
  "redisCalls (onConnect st ws) = redisCalls st"
  "pending (onConnect st ws) = pending st"
  "terminated (onConnect st ws) = terminated st"
  "nextSocket (onConnect st ws) = nextSocket st"
  by (simp_all add: onConnect_def Let_def)

lemma onConnect_balance [simp]: "upstream_balance (onConnect st ws) = upstream_balance st"
  by (simp add: upstream_balance_def fun_eq_iff)

lemma unborn_unsubscribed:
  "consistent st \<Longrightarrow> nextSocket st \<le> ws \<Longrightarrow> ws \<notin> set (subscribers st symb)"
  unfolding consistent_def backed_def unborn_def subscriptions_def
  by (metis empty_iff empty_set option.simps(4))

lemma connection_consistent:
  assumes "consistent st"
  shows "consistent (handle st Connection)"
proof -
  have "backed (handle st Connection)"
    using assms unborn_unsubscribed [OF assms order_refl]
    by (auto simp: consistent_def backed_def onConnect_subscriptions)
  moreover have "unborn (handle st Connection)"
    using assms by (simp add: consistent_def unborn_def onConnect_clientSubscriptions)
  ultimately show ?thesis by (simp add: consistent_def)
qed

lemma message_consistent:
  assumes "consistent st"
  shows "consistent (handle st (Message ws raw))"
proof (cases raw rule: frame_cases)
  case 1
  have "onMessage_start st ws raw = logger (last (ignored_frame_log raw))
          (if raw = Malformed \<or> raw = Json JsonNull then st else logger UnknownMessageType st)"
    using 1
    by (cases raw rule: ignored_frame.cases)
       (simp_all add: onMessage_start_def JSON_parse_def handleMessage_start_def)
  with assms show ?thesis by (simp add: consistent_def)
next
  case (2 symb)
  have "backed (snd (handleSubscription_start st ws symb))"
    "unborn (snd (handleSubscription_start st ws symb))"
    using assms
    by (simp_all add: consistent_def subscription_start_state handleSubscription_backed
          handleSubscription_unborn)
  then show ?thesis
    by (simp add: 2 consistent_def onMessage_start_subscribe split: sum.splits)
next
  case (3 symb)
  have "backed (snd (handleUnsubscription_start st ws symb))"
    "unborn (snd (handleUnsubscription_start st ws symb))"
    using assms by (simp_all add: consistent_def start_backed start_unborn)
  then show ?thesis
    by (simp add: 3 consistent_def onMessage_start_unsubscribe split: sum.splits)
qed

lemma close_consistent:
  assumes "consistent st"
  shows "consistent (handle st (Close ws))"
  using assms
  by (simp add: onClose_eq consistent_def disconnection_backed unborn_def
        disconnection_clientSubscriptions)

lemma reply_consistent:
  assumes "consistent st"
  shows "consistent (handle st (Reply k ok))"
  using assms by (simp add: consistent_def resume_backed resume_unborn)

lemma handle_consistent: "consistent st \<Longrightarrow> consistent (handle st e)"
proof (cases e)
  case Connection
  assume "consistent st"
  then show ?thesis unfolding Connection by (rule connection_consistent)
next
  case (Message ws raw)
  assume "consistent st"
  then show ?thesis unfolding Message by (rule message_consistent)
next
  case (Close ws)
  assume "consistent st"
  then show ?thesis unfolding Close by (rule close_consistent)
next
  case (Publish symb msg rs)
  assume "consistent st"
  then show ?thesis unfolding Publish by (simp add: consistent_def backed_def unborn_def)
next
  case (Reply k ok)
  assume "consistent st"
  then show ?thesis unfolding Reply by (rule reply_consistent)
qed

lemma step_consistent: "consistent st \<Longrightarrow> consistent (step st e)"
  by (simp add: step_def handle_consistent)


lemma initial_consistent: "consistent initial"
  by (simp add: consistent_def backed_def unborn_def initial_def subscribers_def
        subscriptions_def)


section \<open>A symbol stays matched while nothing disturbs it\<close>

lemma subscribers_Nil_iff:
  "(subscribers st symb = []) =
     (globalSubscriptions st symb = None \<or> globalSubscriptions st symb = Some [])"
  by (simp add: subscribers_def split: option.splits)

lemma subscriber_entry:
  "ws \<in> set (subscribers st symb) \<Longrightarrow> globalSubscriptions st symb \<noteq> None"
  by (cases "globalSubscriptions st symb") (simp_all add: subscribers_def)

lemma handleSubscription_balance:
  "upstream_balance (snd (handleSubscription st ws symb ok)) s =
     upstream_balance st s +
       (if s = symb \<and> clientSubscriptions st ws \<noteq> None \<and> symb \<notin> set (subscriptions st ws)
           \<and> globalSubscriptions st symb = None
        then 1 else 0)"
  by (simp add: upstream_balance_def handleSubscription_redisCalls)

lemma start_balance:
  "upstream_balance (snd (handleUnsubscription_start st ws symb)) s =
     upstream_balance st s -
       (if s = symb \<and> fst (handleUnsubscription_start st ws symb) = Inr True then 1 else 0)"
  by (simp add: upstream_balance_def start_redisCalls)

lemma start_entries:
  "globalSubscriptions (snd (handleUnsubscription_start st ws symb)) s = Some [] \<Longrightarrow>
     globalSubscriptions st s = Some []
       \<or> (s = symb \<and> fst (handleUnsubscription_start st ws symb) = Inr True)"
  by (auto simp: handleUnsubscription_start_def Let_def set_has_def
           split: option.splits if_splits)

lemma start_keys:
  "(globalSubscriptions (snd (handleUnsubscription_start st ws symb)) s = None) =
     (globalSubscriptions st s = None)"
  by (auto simp: handleUnsubscription_start_def Let_def split: option.splits)

lemma matched_when_fields [simp]:
  "matched_when f T (st\<lparr>usersCount := n\<rparr>) = matched_when f T st"
  "matched_when f T (st\<lparr>nextSocket := k\<rparr>) = matched_when f T st"
  "matched_when f T (st\<lparr>pending := p\<rparr>) = matched_when f T st"
  "matched_when f T (st\<lparr>terminated := b\<rparr>) = matched_when f T st"
  "matched_when f T (logger e st) = matched_when f T st"
  by (simp_all add: matched_when_def)

lemma in_flight_fields [simp]:
  "in_flight T (st\<lparr>usersCount := n\<rparr>) = in_flight T st"
  "in_flight T (st\<lparr>nextSocket := k\<rparr>) = in_flight T st"
  "in_flight T (st\<lparr>clientSubscriptions := c\<rparr>) = in_flight T st"
  "in_flight T (st\<lparr>terminated := b\<rparr>) = in_flight T st"
  "in_flight T (logger e st) = in_flight T st"
  by (simp_all add: in_flight_def)

lemma matched_when_cong: "matched_when f T st \<Longrightarrow> f = g \<Longrightarrow> matched_when g T st"
  by simp

subsection \<open>Subscribing\<close>

lemma handleSubscription_matched:
  assumes "matched_when f T st" and "symb = T \<Longrightarrow> \<not> f"
  shows "matched_when f T (snd (handleSubscription st ws symb ok))"
proof (cases "symb = T")
  case False
  with assms(1) show ?thesis
    unfolding matched_when_def
    using handleSubscription_entries [of st ws symb ok T]
    by (auto simp: handleSubscription_subscriptions handleSubscription_subscribers
          handleSubscription_balance)
next
  case True
  with assms have e: "globalSubscriptions st T \<noteq> Some []" and nf: "\<not> f"
    by (auto simp: matched_when_def)
  from assms(1) have
    d: "\<And>w. (w \<in> set (subscribers st T)) = (T \<in> set (subscriptions st w))"
    and b: "upstream_balance st T = (if subscribers st T = [] then 0 else 1)"
    by (simp_all add: matched_when_def)
  have k: "(globalSubscriptions st T = None) = (subscribers st T = [])"
    using e by (simp add: subscribers_Nil_iff)
  have n: "subscribers st T = [] \<Longrightarrow> T \<notin> set (subscriptions st w)" for w
    using d [of w] by simp
  have e': "globalSubscriptions (snd (handleSubscription st ws T ok)) T \<noteq> Some []"
    using e handleSubscription_entries [of st ws T ok T] by blast
  show ?thesis
    unfolding matched_when_def True
    using nf d b n e'
    by (auto simp: handleSubscription_subscriptions handleSubscription_subscribers
          handleSubscription_balance k)
qed

subsection \<open>Unsubscribing\<close>

lemma start_matched:
  assumes "matched_when f T st"
  shows "matched_when (f \<or> (symb = T \<and> fst (handleUnsubscription_start st ws symb) = Inr True))
           T (snd (handleUnsubscription_start st ws symb))"
proof (cases "symb = T")
  case False
  with assms show ?thesis
    unfolding matched_when_def
    using start_entries [of st ws symb T]
    by (auto simp: start_subscriptions start_subscribers start_balance)
next
  case True
  from assms have
    d: "\<And>w. (w \<in> set (subscribers st T)) = (T \<in> set (subscriptions st w))"
    and b: "upstream_balance st T = (if subscribers st T = [] then 0 else 1)"
    and e: "globalSubscriptions st T = Some [] \<Longrightarrow> f"
    and g: "f \<Longrightarrow> subscribers st T = []"
    by (simp_all add: matched_when_def)
  show ?thesis
  proof (cases "T \<in> set (subscriptions st ws)")
    case False
    then have "fst (handleUnsubscription_start st ws T) \<noteq> Inr True"
      by (simp add: start_suspended)
    with False d b e g show ?thesis
      unfolding matched_when_def True
      using start_entries [of st ws T T]
      by (auto simp: start_subscriptions start_subscribers start_balance)
  next
    case member: True
    then have s: "ws \<in> set (subscribers st T)" by (simp add: d)
    then have n: "globalSubscriptions st T \<noteq> None" by (rule subscriber_entry)
    from s g have nf: "\<not> f" by auto
    from s have ne: "subscribers st T \<noteq> []" by auto
    have sus: "(fst (handleUnsubscription_start st ws T) = Inr True) =
        (set_delete (subscribers st T) ws = [])"
      using member n by (simp add: start_suspended)
    have ent: "(globalSubscriptions (snd (handleUnsubscription_start st ws T)) T = Some []) =
        (set_delete (subscribers st T) ws = [])"
      using member n start_keys [of st ws T T]
        start_subscribers [of st ws T T]
      by (auto simp: subscribers_def split: option.splits)
    show ?thesis
      unfolding matched_when_def True
      using member nf ne b d
      by (auto simp: start_subscriptions start_subscribers start_balance sus ent)
  qed
qed

lemma each_matched:
  "matched_when f T st \<Longrightarrow>
     matched_when (f \<or> (T, Inr True) \<in> set (snd (unsubscribe_each st ws syms)))
       T (fst (unsubscribe_each st ws syms))"
proof (induction syms arbitrary: st f)
  case Nil
  then show ?case by simp
next
  case (Cons symb rest)
  let ?r = "fst (handleUnsubscription_start st ws symb)"
  let ?st' = "snd (handleUnsubscription_start st ws symb)"
  have "matched_when (f \<or> (symb = T \<and> ?r = Inr True)) T ?st'"
    using Cons.prems by (rule start_matched)
  then have "matched_when ((f \<or> (symb = T \<and> ?r = Inr True))
                \<or> (T, Inr True) \<in> set (snd (unsubscribe_each ?st' ws rest)))
             T (fst (unsubscribe_each ?st' ws rest))"
    by (rule Cons.IH)
  moreover have "(f \<or> (T, Inr True) \<in> set (snd (unsubscribe_each st ws (symb # rest)))) =
      ((f \<or> (symb = T \<and> ?r = Inr True))
        \<or> (T, Inr True) \<in> set (snd (unsubscribe_each ?st' ws rest)))"
    by (auto simp: each_Cons)
  moreover have "fst (unsubscribe_each st ws (symb # rest)) = fst (unsubscribe_each ?st' ws rest)"
    by (simp add: each_Cons)
  ultimately show ?case by simp
qed

lemma disconnection_matched:
  assumes "matched_when f T st"
  shows "matched_when (f \<or> (T, Inr True) \<in> set (snd (handleClientDisconnection st ws)))
           T (fst (handleClientDisconnection st ws))"
proof -
  let ?st2 = "logger (ClientDisconnected (usersCount st - 1) (length (subscriptions st ws)))
                  (st\<lparr>usersCount := usersCount st - 1\<rparr>)"
  let ?r = "unsubscribe_each ?st2 ws (subscriptions st ws)"
  have m: "matched_when (f \<or> (T, Inr True) \<in> set (snd ?r)) T (fst ?r)"
    using assms by (intro each_matched) simp
  have s: "set (subscriptions (fst ?r) w) =
      (if w = ws then {} else set (subscriptions st w))" for w
    using each_subscriptions [of ?st2 ws "subscriptions st ws" w] by simp
  have "subscriptions ((fst ?r)\<lparr>clientSubscriptions := (clientSubscriptions (fst ?r))(ws := None)\<rparr>) w
      = (if w = ws then [] else subscriptions (fst ?r) w)" for w
    by (simp add: subscriptions_def)
  with m s show ?thesis
    unfolding matched_when_def disconnection_eq Let_def
    by (simp add: upstream_balance_def subscribers_def)
qed

subsection \<open>The events\<close>

lemma connection_matched:
  assumes "consistent st" "matched T st"
  shows "matched T (handle st Connection)"
proof -
  have "nextSocket st \<notin> set (subscribers st T)"
    using assms(1) by (rule unborn_unsubscribed) simp
  moreover have "subscriptions st (nextSocket st) = []"
    using assms(1) by (simp add: consistent_def unborn_def subscriptions_def)
  ultimately show ?thesis
    using assms(2)
    by (auto simp: matched_def matched_when_def in_flight_def onConnect_subscriptions)
qed

lemma message_matched:
  assumes "matched T st" "\<not> disturbs T st (Message ws raw)"
  shows "matched T (handle st (Message ws raw))"
proof (cases raw rule: frame_cases)
  case 1
  have "onMessage_start st ws raw = logger (last (ignored_frame_log raw))
          (if raw = Malformed \<or> raw = Json JsonNull then st else logger UnknownMessageType st)"
    using 1
    by (cases raw rule: ignored_frame.cases)
       (simp_all add: onMessage_start_def JSON_parse_def handleMessage_start_def)
  with assms(1) show ?thesis by (simp add: matched_def)
next
  case (2 symb)
  let ?st' = "snd (handleSubscription_start st ws symb)"
  have "symb = T \<Longrightarrow> \<not> in_flight T st"
    using assms(2) by (simp add: 2)
  with assms(1) have "matched_when (in_flight T st) T ?st'"
    unfolding matched_def subscription_start_state by (rule handleSubscription_matched)
  moreover have "in_flight T (?st'\<lparr>pending := pending st @ [Suspended (Subscribe symb) True]\<rparr>)
      = in_flight T st"
    by (simp add: in_flight_def)
  moreover have "in_flight T ?st' = in_flight T st"
    by (simp add: in_flight_def)
  ultimately show ?thesis
    by (simp add: 2 matched_def onMessage_start_subscribe split: sum.splits)
next
  case (3 symb)
  let ?r = "fst (handleUnsubscription_start st ws symb)"
  let ?st' = "snd (handleUnsubscription_start st ws symb)"
  have m: "matched_when (in_flight T st \<or> (symb = T \<and> ?r = Inr True)) T ?st'"
    using assms(1) unfolding matched_def by (rule start_matched)
  have f: "in_flight T (?st'\<lparr>pending := pending st @ [Suspended (Unsubscribe symb) True]\<rparr>)
      = (in_flight T st \<or> symb = T)"
    by (auto simp: in_flight_def)
  have g: "in_flight T ?st' = in_flight T st"
    by (simp add: in_flight_def)
  show ?thesis
  proof (cases ?r)
    case (Inl e)
    with m g show ?thesis
      by (simp add: 3 matched_def onMessage_start_unsubscribe)
  next
    case (Inr b)
    with m f g show ?thesis
      by (cases b) (simp_all add: 3 matched_def onMessage_start_unsubscribe)
  qed
qed

lemma close_matched:
  assumes "matched T st"
  shows "matched T (handle st (Close ws))"
proof -
  let ?d = "handleClientDisconnection st ws"
  have "matched_when (in_flight T st \<or> (T, Inr True) \<in> set (snd ?d)) T (fst ?d)"
    using assms unfolding matched_def by (rule disconnection_matched)
  moreover have "in_flight T (onClose st ws) =
      (in_flight T st \<or> (T, Inr True) \<in> set (snd ?d))"
    by (auto simp: onClose_eq in_flight_def image_iff)
  ultimately show ?thesis
    by (simp add: matched_def) (simp add: onClose_eq)
qed

lemma pending_without:
  "k < length p \<Longrightarrow> set p = insert (p ! k) (set (take k p @ drop (Suc k) p))"
proof -
  assume "k < length p"
  then have "p = take k p @ p ! k # drop (Suc k) p" by (rule id_take_nth_drop)
  then have "set p = set (take k p @ p ! k # drop (Suc k) p)" by simp
  then show ?thesis by simp
qed

lemma reply_matched:
  assumes "matched T st" "\<not> disturbs T st (Reply k ok)"
  shows "matched T (handle st (Reply k ok))"
proof (cases "k < length (pending st)")
  case False
  with assms(1) show ?thesis by simp
next
  case True
  let ?rest = "take k (pending st) @ drop (Suc k) (pending st)"
  obtain call a where p: "pending st ! k = Suspended call a"
    by (cases "pending st ! k")
  have sp: "set (pending st) = insert (Suspended call a) (set ?rest)"
    using pending_without [OF True] by (simp add: p)
  have h: "handle st (Reply k ok) = resume (st\<lparr>pending := ?rest\<rparr>) (Suspended call a) ok"
    using True by (simp add: p)
  from assms(1) have
    d: "\<And>w. (w \<in> set (subscribers st T)) = (T \<in> set (subscriptions st w))"
    and b: "upstream_balance st T = (if subscribers st T = [] then 0 else 1)"
    and e: "globalSubscriptions st T = Some [] \<Longrightarrow> in_flight T st"
    and g: "in_flight T st \<Longrightarrow> subscribers st T = []"
    by (simp_all add: matched_def matched_when_def)
  have later: "in_flight T (resume (st\<lparr>pending := ?rest\<rparr>) (Suspended call a) ok)
      \<Longrightarrow> in_flight T st"
    by (auto simp: in_flight_def sp)
  show ?thesis
  proof (cases "call = Unsubscribe T")
    case same: True
    then have "in_flight T st"
      using sp by (cases a) (auto simp: in_flight_def)
    then have n: "subscribers st T = []" by (rule g)
    from same assms(2) True p have ok by (cases a) auto
    with same n d b show ?thesis
      unfolding h matched_def matched_when_def
      by (simp add: resume_subscribers resume_globalSubscriptions)
  next
    case other: False
    then have "in_flight T (resume (st\<lparr>pending := ?rest\<rparr>) (Suspended call a) ok)
        = in_flight T st"
      by (auto simp: in_flight_def sp)
    with other d b e g show ?thesis
      unfolding h matched_def matched_when_def
      by (simp add: resume_subscribers resume_globalSubscriptions)
  qed
qed

lemma handle_matched:
  assumes "consistent st" "matched T st" "\<not> disturbs T st e"
  shows "matched T (handle st e)"
proof (cases e)
  case Connection
  show ?thesis unfolding Connection using assms(1,2) by (rule connection_matched)
next
  case (Message ws raw)
  show ?thesis using assms(2,3) unfolding Message by (rule message_matched)
next
  case (Close ws)
  show ?thesis unfolding Close using assms(2) by (rule close_matched)
next
  case (Publish symb msg rs)
  with assms(2) show ?thesis
    by (simp add: matched_def matched_when_def in_flight_def)
next
  case (Reply k ok)
  show ?thesis using assms(2,3) unfolding Reply by (rule reply_matched)
qed

lemma step_matched:
  "consistent st \<Longrightarrow> matched T st \<Longrightarrow> terminated st \<or> \<not> disturbs T st e \<Longrightarrow>
     matched T (step st e)"
  by (auto simp: step_def handle_matched)

lemma steps_matched:
  "consistent st \<Longrightarrow> matched T st \<Longrightarrow> undisturbed T st evs \<Longrightarrow>
     matched T (foldl step st evs)"
proof (induction evs arbitrary: st)
  case Nil
  then show ?case by simp
next
  case (Cons e evs)
  from Cons.prems have "consistent (step st e)" "matched T (step st e)"
    "undisturbed T (step st e) evs"
    by (simp_all add: step_consistent step_matched)
  then show ?case using Cons.IH by simp
qed

lemma initial_matched: "matched T initial"
  by (simp add: matched_def matched_when_def in_flight_def initial_def subscribers_def
        subscriptions_def upstream_balance_def)

lemma run_matched: "undisturbed T initial evs \<Longrightarrow> matched T (run evs)"
  unfolding run_def using initial_consistent initial_matched by (rule steps_matched)

lemma undisturbed_prefix:
  "undisturbed T st (evs @ evs') \<Longrightarrow> undisturbed T st evs"
  by (induction evs arbitrary: st) simp_all

text \<open>So the two indices agree on a symbol as long as nothing disturbs it.\<close>

lemma duality_while_undisturbed:
  "undisturbed T initial evs \<Longrightarrow>
     (ws \<in> set (subscribers (run evs) T)) = (T \<in> set (subscriptions (run evs) ws))"
  using run_matched [of T evs] by (simp add: matched_def matched_when_def)
section \<open>Single calls\<close>

lemma handleSubscription_duplicate:
  "clientSubscriptions st c = Some clientSubs \<Longrightarrow> t \<in> set clientSubs \<Longrightarrow>
     handleSubscription st c t ok = (Inr (), logger (DuplicateSubscriptionAttempt t) st)"
  by (simp add: handleSubscription_def set_has_def)

lemma handleSubscription_registers:
  "clientSubscriptions st c = Some clientSubs \<Longrightarrow>
     clientSubscriptions (snd (handleSubscription st c t ok)) c = Some (set_add clientSubs t)"
  by (auto simp: handleSubscription_def set_has_def set_add_def Let_def split: option.splits)

lemma handleSubscription_first_failure:
  assumes "clientSubscriptions st conn = Some clientSubs"
    and "topic \<notin> set clientSubs"
    and "globalSubscriptions st topic = None"
  shows "handleSubscription st conn topic False =
      (Inl RedisError,
       st\<lparr>clientSubscriptions := (clientSubscriptions st)(conn \<mapsto> clientSubs @ [topic]),
          globalSubscriptions := (globalSubscriptions st)(topic \<mapsto> [conn]),
          redisCalls := redisCalls st @ [Subscribe topic]\<rparr>)"
  using assms by (simp add: handleSubscription_def set_has_def set_add_def Let_def)

lemma handleUnsubscription_last_failure:
  assumes "clientSubscriptions st c = Some clientSubs"
    and "t \<in> set clientSubs"
    and "globalSubscriptions st t = Some [c]"
  shows "handleUnsubscription st c t False =
      (Inl RedisError,
       st\<lparr>clientSubscriptions := (clientSubscriptions st)(c \<mapsto> removeAll t clientSubs),
          globalSubscriptions := (globalSubscriptions st)(t \<mapsto> []),
          redisCalls := redisCalls st @ [Unsubscribe t]\<rparr>)"
  using assms
  by (simp add: handleUnsubscription_def handleUnsubscription_start_def
        handleUnsubscription_resume_def set_has_def set_delete_def Let_def)

section \<open>What a disconnection unsubscribes\<close>











section \<open>Evaluation on concrete runs\<close>

lemmas eval_defs =
  run_def initial_def step_def onConnect_def onMessage_def JSON_parse_def handleMessage_def
  handleSubscription_def handleUnsubscription_def handleUnsubscription_start_def
  handleUnsubscription_resume_def handleSubscription_start_def handleSubscription_resume_def
  handleMessage_start_def onMessage_start_def resume_def resume_call_def onClose_def
  handleClientDisconnection_def unsubscribe_each.simps
  broadcastToSubscribers_def logger_def in_flight_def
  set_has_def set_add_def set_delete_def subscribers_def subscriptions_def
  upstream_balance_def Let_def

section \<open>The claims\<close>

text \<open>
  C1 (duality invariant). The code does not keep it. Line 131 deletes the entry of a
  topic when the reply to \<^verbatim>\<open>redisClient.unsubscribe\<close> arrives, on the strength of the test
  of line 129 made before the call; a subscribe frame handled in between has found the
  emptied entry and added its socket to it (lines 105-106). Below, socket 0 subscribes to
  \<open>T\<close> and unsubscribes; socket 1 subscribes to \<open>T\<close> before Redis has replied; then the
  reply arrives, a success like every reply of the run. No call is pending any more, the
  process runs, and \<open>T\<close> is among the subscriptions of socket 1 while \<open>T\<close> has no
  subscriber and no entry.
\<close>

theorem duality_lost_to_late_reply:
  "subscriptions (run [Connection, Connection,
       Message 0 (subscribe_frame (Str ''T'')), Reply 0 True,
       Message 0 (unsubscribe_frame (Str ''T'')),
       Message (Suc 0) (subscribe_frame (Str ''T'')),
       Reply 0 True]) (Suc 0) = [Str ''T'']
   \<and> subscribers (run [Connection, Connection,
       Message 0 (subscribe_frame (Str ''T'')), Reply 0 True,
       Message 0 (unsubscribe_frame (Str ''T'')),
       Message (Suc 0) (subscribe_frame (Str ''T'')),
       Reply 0 True]) (Str ''T'') = []
   \<and> globalSubscriptions (run [Connection, Connection,
       Message 0 (subscribe_frame (Str ''T'')), Reply 0 True,
       Message 0 (unsubscribe_frame (Str ''T'')),
       Message (Suc 0) (subscribe_frame (Str ''T'')),
       Reply 0 True]) (Str ''T'') = None
   \<and> pending (run [Connection, Connection,
       Message 0 (subscribe_frame (Str ''T'')), Reply 0 True,
       Message 0 (unsubscribe_frame (Str ''T'')),
       Message (Suc 0) (subscribe_frame (Str ''T'')),
       Reply 0 True]) = []
   \<and> \<not> terminated (run [Connection, Connection,
       Message 0 (subscribe_frame (Str ''T'')), Reply 0 True,
       Message 0 (unsubscribe_frame (Str ''T'')),
       Message (Suc 0) (subscribe_frame (Str ''T'')),
       Reply 0 True])"
  by (simp add: eval_defs)

text \<open>
  C2 (subscribe on upstream failure), as amended: for a registered connection and a topic
  that is not among its subscriptions and has no entry in \<^verbatim>\<open>globalSubscriptions\<close> (the only
  case in which \<^verbatim>\<open>redisClient.subscribe\<close> is called), if the upstream subscribe call
  fails, \<^verbatim>\<open>handleSubscription\<close> returns the error to its caller, and the message handler
  logs it; but nothing is rolled back: the topic stays among the connection's
  subscriptions, the new entry of the topic stays with the connection in it, and the
  upstream call stays issued.
\<close>

theorem subscribe_failure_keeps_insertions:
  assumes "clientSubscriptions st conn = Some clientSubs"
    and "topic \<notin> set clientSubs"
    and "globalSubscriptions st topic = None"
  shows "handleSubscription st conn topic False =
      (Inl RedisError,
       st\<lparr>clientSubscriptions := (clientSubscriptions st)(conn \<mapsto> clientSubs @ [topic]),
          globalSubscriptions := (globalSubscriptions st)(topic \<mapsto> [conn]),
          redisCalls := redisCalls st @ [Subscribe topic]\<rparr>)
    \<and> onMessage st conn (subscribe_frame topic) False =
      logger (ErrorProcessingMessage RedisError)
        (st\<lparr>clientSubscriptions := (clientSubscriptions st)(conn \<mapsto> clientSubs @ [topic]),
            globalSubscriptions := (globalSubscriptions st)(topic \<mapsto> [conn]),
            redisCalls := redisCalls st @ [Subscribe topic]\<rparr>)"
  using handleSubscription_first_failure [OF assms]
  by (simp add: onMessage_def JSON_parse_def handleMessage_def)

theorem subscribe_failure_keeps_insertions_witness:
  "clientSubscriptions (run [Connection]) 0 = Some []
   \<and> globalSubscriptions (run [Connection]) (Str ''AAPL'') = None
   \<and> fst (handleSubscription (run [Connection]) 0 (Str ''AAPL'') False) = Inl RedisError
   \<and> subscriptions (snd (handleSubscription (run [Connection]) 0 (Str ''AAPL'') False)) 0
       = [Str ''AAPL'']
   \<and> subscribers (snd (handleSubscription (run [Connection]) 0 (Str ''AAPL'') False))
       (Str ''AAPL'') = [0]
   \<and> redisCalls (snd (handleSubscription (run [Connection]) 0 (Str ''AAPL'') False))
       = [Subscribe (Str ''AAPL'')]"
proof -
  have h1: "clientSubscriptions (run [Connection]) 0 = Some []"
    by (simp add: eval_defs)
  have h2: "Str ''AAPL'' \<notin> set []" by simp
  have h3: "globalSubscriptions (run [Connection]) (Str ''AAPL'') = None"
    by (simp add: eval_defs)
  have h4: "redisCalls (run [Connection]) = []"
    by (simp add: eval_defs)
  from subscribe_failure_keeps_insertions [OF h1 h2 h3] h1 h3 h4 show ?thesis
    by (simp add: subscriptions_def subscribers_def)
qed

text \<open>
  As stated, with both insertions rolled back, C2 fails: the insertions of lines 90 and 93
  precede the \<^verbatim>\<open>await\<close> and no handler undoes them.
\<close>

theorem subscribe_rollback_counterexample:
  "clientSubscriptions (run [Connection]) 0 = Some []
   \<and> globalSubscriptions (run [Connection]) (Str ''AAPL'') = None
   \<and> fst (handleSubscription (run [Connection]) 0 (Str ''AAPL'') False) = Inl RedisError
   \<and> clientSubscriptions (snd (handleSubscription (run [Connection]) 0 (Str ''AAPL'') False)) 0
       = Some [Str ''AAPL'']
   \<and> globalSubscriptions (snd (handleSubscription (run [Connection]) 0 (Str ''AAPL'') False))
       (Str ''AAPL'') = Some [0]"
  by (simp add: eval_defs)

text \<open>
  C3 (reference-count invariant), as amended: for every topic, in every run in which no
  subscribe frame for the topic is handled while an upstream unsubscribe call for it is
  in flight and no upstream unsubscribe call for it fails, after each event the number of
  upstream subscribe calls issued for the topic minus the number of upstream unsubscribe
  calls issued for it is 1 if the topic has a subscriber and 0 otherwise. Anything may
  happen to other topics, and subscribe calls may fail.
\<close>

theorem reference_count_invariant:
  assumes "undisturbed topic initial evs"
  shows "upstream_balance (run evs) topic = (if subscribers (run evs) topic = [] then 0 else 1)"
  using run_matched [OF assms] by (simp add: matched_def matched_when_def)

theorem reference_count_invariant_witness:
  "undisturbed (Str ''AAPL'') initial
     [Connection, Connection,
      Message 0 (subscribe_frame (Str ''AAPL'')),
      Message (Suc 0) (subscribe_frame (Str ''MSFT'')),
      Reply (Suc 0) True, Reply 0 False,
      Message (Suc 0) (unsubscribe_frame (Str ''MSFT'')),
      Close 0,
      Reply (Suc 0) True, Reply 0 False]
   \<and> upstream_balance (run
     [Connection, Connection,
      Message 0 (subscribe_frame (Str ''AAPL'')),
      Message (Suc 0) (subscribe_frame (Str ''MSFT'')),
      Reply (Suc 0) True, Reply 0 False,
      Message (Suc 0) (unsubscribe_frame (Str ''MSFT'')),
      Close 0,
      Reply (Suc 0) True, Reply 0 False]) (Str ''AAPL'') = 0
   \<and> subscribers (run
     [Connection, Connection,
      Message 0 (subscribe_frame (Str ''AAPL'')),
      Message (Suc 0) (subscribe_frame (Str ''MSFT'')),
      Reply (Suc 0) True, Reply 0 False,
      Message (Suc 0) (unsubscribe_frame (Str ''MSFT'')),
      Close 0,
      Reply (Suc 0) True, Reply 0 False]) (Str ''AAPL'') = []
   \<and> redisCalls (run
     [Connection, Connection,
      Message 0 (subscribe_frame (Str ''AAPL'')),
      Message (Suc 0) (subscribe_frame (Str ''MSFT'')),
      Reply (Suc 0) True, Reply 0 False,
      Message (Suc 0) (unsubscribe_frame (Str ''MSFT'')),
      Close 0,
      Reply (Suc 0) True, Reply 0 False])
     = [Subscribe (Str ''AAPL''), Subscribe (Str ''MSFT''),
        Unsubscribe (Str ''MSFT''), Unsubscribe (Str ''AAPL'')]"
proof -
  let ?evs = "[Connection, Connection,
      Message 0 (subscribe_frame (Str ''AAPL'')),
      Message (Suc 0) (subscribe_frame (Str ''MSFT'')),
      Reply (Suc 0) True, Reply 0 False,
      Message (Suc 0) (unsubscribe_frame (Str ''MSFT'')),
      Close 0,
      Reply (Suc 0) True, Reply 0 False]"
  have h: "undisturbed (Str ''AAPL'') initial ?evs"
    by (simp add: eval_defs)
  have s: "subscribers (run ?evs) (Str ''AAPL'') = []"
    by (simp add: eval_defs)
  have c: "redisCalls (run ?evs)
     = [Subscribe (Str ''AAPL''), Subscribe (Str ''MSFT''),
        Unsubscribe (Str ''MSFT''), Unsubscribe (Str ''AAPL'')]"
    by (simp add: eval_defs)
  from reference_count_invariant [OF h] h s c show ?thesis by simp
qed

text \<open>
  As stated, for every sequence of operations, C3 fails in two ways. With every reply a
  success: socket 0 unsubscribes as the last subscriber, and its subscribe frame handled
  before the reply joins the emptied entry without an upstream subscribe call (lines
  105-106), so the topic has a subscriber and a balance of 0. With a failing reply: the
  rejection skips line 131, the empty entry stays, and the next subscriber joins it in
  the same way.
\<close>

theorem reference_count_counterexample:
  "subscribers (run
     [Connection,
      Message 0 (subscribe_frame (Str ''AAPL'')), Reply 0 True,
      Message 0 (unsubscribe_frame (Str ''AAPL'')),
      Message 0 (subscribe_frame (Str ''AAPL''))])
     (Str ''AAPL'') = [0]
   \<and> upstream_balance (run
     [Connection,
      Message 0 (subscribe_frame (Str ''AAPL'')), Reply 0 True,
      Message 0 (unsubscribe_frame (Str ''AAPL'')),
      Message 0 (subscribe_frame (Str ''AAPL''))])
     (Str ''AAPL'') = 0
   \<and> subscribers (run
     [Connection,
      Message 0 (subscribe_frame (Str ''AAPL'')), Reply 0 True,
      Message 0 (unsubscribe_frame (Str ''AAPL'')), Reply 0 False,
      Message 0 (subscribe_frame (Str ''AAPL''))])
     (Str ''AAPL'') = [0]
   \<and> upstream_balance (run
     [Connection,
      Message 0 (subscribe_frame (Str ''AAPL'')), Reply 0 True,
      Message 0 (unsubscribe_frame (Str ''AAPL'')), Reply 0 False,
      Message 0 (subscribe_frame (Str ''AAPL''))])
     (Str ''AAPL'') = 0
   \<and> pending (run
     [Connection,
      Message 0 (subscribe_frame (Str ''AAPL'')), Reply 0 True,
      Message 0 (unsubscribe_frame (Str ''AAPL'')), Reply 0 False,
      Message 0 (subscribe_frame (Str ''AAPL''))]) = []"
  by (simp add: eval_defs)

text \<open>
  C4 (idempotence). For a registered connection \<open>c\<close> and any topic \<open>t\<close>, whatever the
  Redis outcomes: a second \<^verbatim>\<open>handleSubscription\<close> right after a first one succeeds and
  leaves both indices and the upstream calls as the first left them; and
  \<^verbatim>\<open>handleUnsubscription\<close> for a topic that is not among the subscriptions of \<open>c\<close>
  succeeds and changes nothing but the log, so it issues no upstream call.
\<close>

theorem idempotence:
  assumes "clientSubscriptions st c = Some clientSubs"
  shows "router_state (snd (handleSubscription (snd (handleSubscription st c t ok1)) c t ok2))
           = router_state (snd (handleSubscription st c t ok1))
    \<and> fst (handleSubscription (snd (handleSubscription st c t ok1)) c t ok2) = Inr ()
    \<and> (t \<notin> set clientSubs \<longrightarrow>
          handleUnsubscription st c t ok =
            (Inr (), logger (UnsubscribeAttemptForNonSubscribedStock t) st))"
proof -
  let ?st' = "snd (handleSubscription st c t ok1)"
  have r: "clientSubscriptions ?st' c = Some (set_add clientSubs t)"
    using assms by (rule handleSubscription_registers)
  have m: "t \<in> set (set_add clientSubs t)" by simp
  have "handleSubscription ?st' c t ok2 = (Inr (), logger (DuplicateSubscriptionAttempt t) ?st')"
    using r m by (rule handleSubscription_duplicate)
  moreover have "t \<notin> set clientSubs \<Longrightarrow>
      handleUnsubscription st c t ok =
        (Inr (), logger (UnsubscribeAttemptForNonSubscribedStock t) st)"
    using assms
    by (simp add: handleUnsubscription_def handleUnsubscription_start_def set_has_def)
  ultimately show ?thesis by (simp add: router_state_def)
qed

theorem idempotence_witness:
  "clientSubscriptions (run [Connection]) 0 = Some []
   \<and> router_state (snd (handleSubscription
        (snd (handleSubscription (run [Connection]) 0 (Str ''AAPL'') True)) 0 (Str ''AAPL'') True))
       = router_state (snd (handleSubscription (run [Connection]) 0 (Str ''AAPL'') True))
   \<and> redisCalls (snd (handleSubscription
        (snd (handleSubscription (run [Connection]) 0 (Str ''AAPL'') True)) 0 (Str ''AAPL'') True))
       = [Subscribe (Str ''AAPL'')]
   \<and> handleUnsubscription (run [Connection]) 0 (Str ''AAPL'') True =
        (Inr (), logger (UnsubscribeAttemptForNonSubscribedStock (Str ''AAPL''))
                   (run [Connection]))"
proof -
  have h: "clientSubscriptions (run [Connection]) 0 = Some []"
    by (simp add: eval_defs)
  have c: "redisCalls (snd (handleSubscription (run [Connection]) 0 (Str ''AAPL'') True))
             = [Subscribe (Str ''AAPL'')]"
    by (simp add: eval_defs)
  from idempotence [OF h, of "Str ''AAPL''" True True True] h c show ?thesis
    by (simp add: router_state_def)
qed




text \<open>
  C6 (fan-out correctness). \<^verbatim>\<open>broadcastToSubscribers\<close> for a topic \<open>T\<close> sends, in
  subscription order, one frame to each subscriber of \<open>T\<close> whose socket is open at the call
  and to nobody else; the frame is the object with \<^verbatim>\<open>event\<close> = \<^verbatim>\<open>event_orderbook_update\<close>,
  \<^verbatim>\<open>stockSymbol\<close> = \<open>T\<close> and \<^verbatim>\<open>message\<close> = the upstream payload as received.
\<close>

theorem fan_out:
  "sent (broadcastToSubscribers st readyState T payload) =
     sent st @ map (\<lambda>client. (client,
         \<lparr>event = ''event_orderbook_update'', stockSymbol = T, message = payload\<rparr>))
       (filter (\<lambda>client. readyState client = OPEN) (subscribers st T))
   \<and> fst ` set (drop (length (sent st)) (sent (broadcastToSubscribers st readyState T payload)))
       = {client. client \<in> set (subscribers st T) \<and> readyState client = OPEN}"
  by (auto simp: broadcast_sent image_iff)

theorem fan_out_witness:
  "subscribers (run [Connection, Connection, Connection,
       Message 0 (subscribe_frame (Str ''T'')), Reply 0 True,
       Message 1 (subscribe_frame (Str ''T'')), Reply 0 True,
       Message 2 (subscribe_frame (Str ''U'')), Reply 0 True]) (Str ''T'') = [0, 1]
   \<and> subscribers (run [Connection, Connection, Connection,
       Message 0 (subscribe_frame (Str ''T'')), Reply 0 True,
       Message 1 (subscribe_frame (Str ''T'')), Reply 0 True,
       Message 2 (subscribe_frame (Str ''U'')), Reply 0 True]) (Str ''U'') = [2]
   \<and> sent (broadcastToSubscribers (run [Connection, Connection, Connection,
       Message 0 (subscribe_frame (Str ''T'')), Reply 0 True,
       Message 1 (subscribe_frame (Str ''T'')), Reply 0 True,
       Message 2 (subscribe_frame (Str ''U'')), Reply 0 True])
         all_open (Str ''T'') ''p'')
       = [(0, \<lparr>event = ''event_orderbook_update'', stockSymbol = Str ''T'', message = ''p''\<rparr>),
          (1, \<lparr>event = ''event_orderbook_update'', stockSymbol = Str ''T'', message = ''p''\<rparr>)]"
proof -
  let ?evs = "[Connection, Connection, Connection,
       Message 0 (subscribe_frame (Str ''T'')), Reply 0 True,
       Message 1 (subscribe_frame (Str ''T'')), Reply 0 True,
       Message 2 (subscribe_frame (Str ''U'')), Reply 0 True]"
  have t: "subscribers (run ?evs) (Str ''T'') = [0, 1]"
    by (simp add: eval_defs)
  have u: "subscribers (run ?evs) (Str ''U'') = [2]"
    by (simp add: eval_defs)
  have s: "sent (run ?evs) = []"
    by (simp add: eval_defs)
  from fan_out [of "run ?evs" all_open "Str ''T''" "''p''"] t u s show ?thesis
    by (simp add: all_open_def)
qed

text \<open>
  C7 (isolation under partial delivery failure). If the subscribers of \<open>T\<close> include a
  socket \<open>c1\<close> that is not open and an open socket \<open>c2\<close>, the broadcast still sends the
  frame to \<open>c2\<close>, sends nothing to \<open>c1\<close>, runs to its end and logs its counts, with
  \<open>c1\<close> among the sockets counted as failed; both indices and the upstream calls are
  left as they were.
\<close>

theorem partial_delivery_isolation:
  assumes "c1 \<in> set (subscribers st T)" and "readyState c1 \<noteq> OPEN"
    and "c2 \<in> set (subscribers st T)" and "readyState c2 = OPEN"
  shows "(c2, \<lparr>event = ''event_orderbook_update'', stockSymbol = T, message = payload\<rparr>)
           \<in> set (drop (length (sent st)) (sent (broadcastToSubscribers st readyState T payload)))
    \<and> c1 \<notin> fst ` set (drop (length (sent st))
                         (sent (broadcastToSubscribers st readyState T payload)))
    \<and> logs (broadcastToSubscribers st readyState T payload) =
        logs st @ [BroadcastCompleted T
          (length (filter (\<lambda>client. readyState client = OPEN) (subscribers st T)))
          (length (filter (\<lambda>client. readyState client \<noteq> OPEN) (subscribers st T)))
          (length (subscribers st T))]
    \<and> c1 \<in> set (filter (\<lambda>client. readyState client \<noteq> OPEN) (subscribers st T))
    \<and> globalSubscriptions (broadcastToSubscribers st readyState T payload)
        = globalSubscriptions st
    \<and> clientSubscriptions (broadcastToSubscribers st readyState T payload)
        = clientSubscriptions st
    \<and> redisCalls (broadcastToSubscribers st readyState T payload) = redisCalls st"
proof -
  from assms(1) obtain subs where g: "globalSubscriptions st T = Some subs"
    by (cases "globalSubscriptions st T") (simp_all add: subscribers_def)
  then have s: "subscribers st T = subs" by (simp add: subscribers_def)
  have "logs (broadcastToSubscribers st readyState T payload) =
        logs st @ [BroadcastCompleted T
          (length (filter (\<lambda>client. readyState client = OPEN) subs))
          (length (filter (\<lambda>client. readyState client \<noteq> OPEN) subs))
          (length subs)]"
    using g by (simp add: broadcast_eq)
  with assms s show ?thesis
    by (auto simp: broadcast_sent image_iff)
qed

theorem partial_delivery_isolation_witness:
  "subscribers (run [Connection, Connection,
       Message 0 (subscribe_frame (Str ''T'')), Reply 0 True,
       Message (Suc 0) (subscribe_frame (Str ''T'')), Reply 0 True]) (Str ''T'')
     = [0, Suc 0]
   \<and> all_open_but 0 0 = CLOSED \<and> all_open_but 0 (Suc 0) = OPEN
   \<and> sent (broadcastToSubscribers (run [Connection, Connection,
       Message 0 (subscribe_frame (Str ''T'')), Reply 0 True,
       Message (Suc 0) (subscribe_frame (Str ''T'')), Reply 0 True])
         (all_open_but 0) (Str ''T'') ''p'')
       = [(Suc 0,
           \<lparr>event = ''event_orderbook_update'', stockSymbol = Str ''T'', message = ''p''\<rparr>)]
   \<and> last (logs (broadcastToSubscribers (run [Connection, Connection,
       Message 0 (subscribe_frame (Str ''T'')), Reply 0 True,
       Message (Suc 0) (subscribe_frame (Str ''T'')), Reply 0 True])
         (all_open_but 0) (Str ''T'') ''p''))
       = BroadcastCompleted (Str ''T'') (Suc 0) (Suc 0) (Suc (Suc 0))"
proof -
  let ?evs = "[Connection, Connection,
       Message 0 (subscribe_frame (Str ''T'')), Reply 0 True,
       Message (Suc 0) (subscribe_frame (Str ''T'')), Reply 0 True]"
  have t: "subscribers (run ?evs) (Str ''T'') = [0, Suc 0]"
    by (simp add: eval_defs)
  have s: "sent (run ?evs) = []"
    by (simp add: eval_defs)
  have a0: "all_open_but 0 0 = CLOSED" and a1: "all_open_but 0 (Suc 0) = OPEN"
    by (simp_all add: all_open_but_def)
  have h1: "0 \<in> set (subscribers (run ?evs) (Str ''T''))" by (simp add: t)
  have h2: "all_open_but 0 0 \<noteq> OPEN" by (simp add: a0)
  have h3: "Suc 0 \<in> set (subscribers (run ?evs) (Str ''T''))" by (simp add: t)
  note r = partial_delivery_isolation [OF h1 h2 h3 a1, of "''p''"]
  have "sent (broadcastToSubscribers (run ?evs) (all_open_but 0) (Str ''T'') ''p'')
       = [(Suc 0,
           \<lparr>event = ''event_orderbook_update'', stockSymbol = Str ''T'', message = ''p''\<rparr>)]"
    by (simp add: broadcast_sent t s a0 a1)
  moreover have "last (logs (broadcastToSubscribers (run ?evs) (all_open_but 0) (Str ''T'') ''p''))
       = BroadcastCompleted (Str ''T'') (Suc 0) (Suc 0) (Suc (Suc 0))"
    using r by (simp add: t a0 a1)
  ultimately show ?thesis using t a0 a1 by blast
qed

text \<open>
  C8 (unsubscribe on upstream failure), as amended: when a connection \<open>c\<close> is the only
  subscriber of a topic \<open>t\<close> and the upstream unsubscribe call fails,
  \<^verbatim>\<open>handleUnsubscription\<close> has removed \<open>t\<close> from the subscriptions of \<open>c\<close> and \<open>c\<close> from
  the subscribers of \<open>t\<close> and has issued the upstream call once; but the now-empty entry
  of \<open>t\<close> stays in \<^verbatim>\<open>globalSubscriptions\<close>, and the error is returned to the caller. On the
  message path the handler logs it.
\<close>

theorem unsubscribe_failure_keeps_entry:
  assumes "clientSubscriptions st c = Some clientSubs"
    and "t \<in> set clientSubs"
    and "globalSubscriptions st t = Some [c]"
  shows "handleUnsubscription st c t False =
      (Inl RedisError,
       st\<lparr>clientSubscriptions := (clientSubscriptions st)(c \<mapsto> removeAll t clientSubs),
          globalSubscriptions := (globalSubscriptions st)(t \<mapsto> []),
          redisCalls := redisCalls st @ [Unsubscribe t]\<rparr>)
    \<and> onMessage st c (unsubscribe_frame t) False =
      logger (ErrorProcessingMessage RedisError)
        (st\<lparr>clientSubscriptions := (clientSubscriptions st)(c \<mapsto> removeAll t clientSubs),
            globalSubscriptions := (globalSubscriptions st)(t \<mapsto> []),
            redisCalls := redisCalls st @ [Unsubscribe t]\<rparr>)"
  using handleUnsubscription_last_failure [OF assms]
  by (simp add: onMessage_def JSON_parse_def handleMessage_def)

theorem unsubscribe_failure_keeps_entry_witness:
  "clientSubscriptions (run [Connection,
       Message 0 (subscribe_frame (Str ''AAPL'')), Reply 0 True]) 0
     = Some [Str ''AAPL'']
   \<and> globalSubscriptions (run [Connection,
       Message 0 (subscribe_frame (Str ''AAPL'')), Reply 0 True]) (Str ''AAPL'')
     = Some [0]
   \<and> fst (handleUnsubscription (run [Connection,
       Message 0 (subscribe_frame (Str ''AAPL'')), Reply 0 True])
         0 (Str ''AAPL'') False) = Inl RedisError
   \<and> subscriptions (snd (handleUnsubscription (run [Connection,
       Message 0 (subscribe_frame (Str ''AAPL'')), Reply 0 True])
         0 (Str ''AAPL'') False)) 0 = []
   \<and> subscribers (snd (handleUnsubscription (run [Connection,
       Message 0 (subscribe_frame (Str ''AAPL'')), Reply 0 True])
         0 (Str ''AAPL'') False)) (Str ''AAPL'') = []
   \<and> redisCalls (snd (handleUnsubscription (run [Connection,
       Message 0 (subscribe_frame (Str ''AAPL'')), Reply 0 True])
         0 (Str ''AAPL'') False))
     = [Subscribe (Str ''AAPL''), Unsubscribe (Str ''AAPL'')]"
proof -
  let ?evs = "[Connection,
       Message 0 (subscribe_frame (Str ''AAPL'')), Reply 0 True]"
  have h1: "clientSubscriptions (run ?evs) 0 = Some [Str ''AAPL'']"
    by (simp add: eval_defs)
  have h2: "Str ''AAPL'' \<in> set [Str ''AAPL'']" by simp
  have h3: "globalSubscriptions (run ?evs) (Str ''AAPL'') = Some [0]"
    by (simp add: eval_defs)
  have h4: "redisCalls (run ?evs) = [Subscribe (Str ''AAPL'')]"
    by (simp add: eval_defs)
  from unsubscribe_failure_keeps_entry [OF h1 h2 h3] h1 h3 h4 show ?thesis
    by (simp add: subscriptions_def subscribers_def)
qed

text \<open>
  As stated, with the entry of \<open>t\<close> discarded and the failure kept from the caller, C8
  fails: the rejection skips line 131.
\<close>

theorem unsubscribe_failure_counterexample:
  "clientSubscriptions (run [Connection,
       Message 0 (subscribe_frame (Str ''AAPL'')), Reply 0 True]) 0
     = Some [Str ''AAPL'']
   \<and> globalSubscriptions (run [Connection,
       Message 0 (subscribe_frame (Str ''AAPL'')), Reply 0 True]) (Str ''AAPL'')
     = Some [0]
   \<and> fst (handleUnsubscription (run [Connection,
       Message 0 (subscribe_frame (Str ''AAPL'')), Reply 0 True])
         0 (Str ''AAPL'') False) = Inl RedisError
   \<and> globalSubscriptions (snd (handleUnsubscription (run [Connection,
       Message 0 (subscribe_frame (Str ''AAPL'')), Reply 0 True])
         0 (Str ''AAPL'') False)) (Str ''AAPL'') = Some []"
  by (simp add: eval_defs)

text \<open>
  C9 (robust inbound decoding), as amended: a frame that is not valid JSON, or decodes to
  \<^verbatim>\<open>null\<close>, or whose \<^verbatim>\<open>type\<close> is neither \<^verbatim>\<open>subscribe\<close> nor \<^verbatim>\<open>unsubscribe\<close>, is handled in one
  go and changes nothing but the log: both indices, the upstream calls and the user
  count stay as they were. Whatever the frame, the connection stays open and no frame is
  sent to the client: the message handler sends nothing, closes no socket (the server
  never does) and does not end the process. A subscribe or unsubscribe frame without
  \<^verbatim>\<open>stockSymbol\<close> is not dropped: it is handled as the subscription or unsubscription of
  the key \<^verbatim>\<open>undefined\<close>.
\<close>

theorem inbound_decoding:
  "(ignored_frame raw \<longrightarrow>
      router_state (onMessage st ws raw ok) = router_state st
      \<and> usersCount (onMessage st ws raw ok) = usersCount st
      \<and> pending (onMessage st ws raw ok) = pending st
      \<and> logs (onMessage st ws raw ok) = logs st @ ignored_frame_log raw
      \<and> (\<not> terminated st \<longrightarrow> step st (Message ws raw) = onMessage st ws raw ok))
   \<and> sent (onMessage st ws raw ok) = sent st
   \<and> terminated (onMessage st ws raw ok) = terminated st
   \<and> sent (step st (Message ws raw)) = sent st
   \<and> terminated (step st (Message ws raw)) = terminated st
   \<and> onMessage st ws (subscribe_frame Undefined) ok =
       (case handleSubscription st ws Undefined ok of
          (Inl e, st') \<Rightarrow> logger (ErrorProcessingMessage e) st'
        | (Inr u, st') \<Rightarrow> logger MessageReceived st')
   \<and> onMessage st ws (unsubscribe_frame Undefined) ok =
       (case handleUnsubscription st ws Undefined ok of
          (Inl e, st') \<Rightarrow> logger (ErrorProcessingMessage e) st'
        | (Inr u, st') \<Rightarrow> logger MessageReceived st')"
proof -
  have ignored: "router_state (onMessage st ws raw ok) = router_state st
      \<and> usersCount (onMessage st ws raw ok) = usersCount st
      \<and> pending (onMessage st ws raw ok) = pending st
      \<and> logs (onMessage st ws raw ok) = logs st @ ignored_frame_log raw
      \<and> (\<not> terminated st \<longrightarrow> step st (Message ws raw) = onMessage st ws raw ok)"
    if i: "ignored_frame raw"
  proof -
    have "onMessage_start st ws raw = onMessage st ws raw ok"
      using i by (rule onMessage_start_ignored)
    then have "\<not> terminated st \<longrightarrow> step st (Message ws raw) = onMessage st ws raw ok"
      by (simp add: step_def)
    moreover from i have "router_state (onMessage st ws raw ok) = router_state st
      \<and> usersCount (onMessage st ws raw ok) = usersCount st
      \<and> pending (onMessage st ws raw ok) = pending st
      \<and> logs (onMessage st ws raw ok) = logs st @ ignored_frame_log raw"
      by (cases raw rule: ignored_frame.cases)
         (simp_all add: onMessage_def JSON_parse_def handleMessage_def router_state_def)
    ultimately show ?thesis by simp
  qed
  have quiet: "sent (onMessage st ws raw ok) = sent st
      \<and> terminated (onMessage st ws raw ok) = terminated st"
    by (simp add: onMessage_quiet)
  have quiet': "sent (step st (Message ws raw)) = sent st
      \<and> terminated (step st (Message ws raw)) = terminated st"
    by (simp add: step_def onMessage_start_quiet)
  have "onMessage st ws (subscribe_frame Undefined) ok =
       (case handleSubscription st ws Undefined ok of
          (Inl e, st') \<Rightarrow> logger (ErrorProcessingMessage e) st'
        | (Inr u, st') \<Rightarrow> logger MessageReceived st')"
    by (simp add: onMessage_def JSON_parse_def handleMessage_def)
  moreover have "onMessage st ws (unsubscribe_frame Undefined) ok =
       (case handleUnsubscription st ws Undefined ok of
          (Inl e, st') \<Rightarrow> logger (ErrorProcessingMessage e) st'
        | (Inr u, st') \<Rightarrow> logger MessageReceived st')"
    by (simp add: onMessage_def JSON_parse_def handleMessage_def)
  ultimately show ?thesis using ignored quiet quiet' by blast
qed

theorem inbound_decoding_witness:
  "ignored_frame (Json (JsonObject (Some ''ping'') (Str ''AAPL'')))
   \<and> ignored_frame (Json (JsonObject None Undefined))
   \<and> ignored_frame Malformed
   \<and> \<not> terminated (run [Connection])
   \<and> router_state (onMessage (run [Connection]) 0
        (Json (JsonObject (Some ''ping'') (Str ''AAPL''))) True) = router_state (run [Connection])
   \<and> step (run [Connection]) (Message 0 Malformed) = onMessage (run [Connection]) 0 Malformed True
   \<and> logs (onMessage (run [Connection]) 0 Malformed True)
        = [ServerInitialized, ClientConnected 1, ErrorProcessingMessage SyntaxError]
   \<and> logs (onMessage (run [Connection]) 0 (Json (JsonObject None Undefined)) True)
        = [ServerInitialized, ClientConnected 1, UnknownMessageType, MessageReceived]"
proof -
  have h1: "ignored_frame (Json (JsonObject (Some ''ping'') (Str ''AAPL'')))" by simp
  have h2: "ignored_frame (Json (JsonObject None Undefined))" by simp
  have h3: "ignored_frame Malformed" by simp
  have a: "\<not> terminated (run [Connection])"
    by (simp add: eval_defs)
  have l: "logs (run [Connection]) = [ServerInitialized, ClientConnected 1]"
    by (simp add: eval_defs)
  from inbound_decoding
         [of "Json (JsonObject (Some ''ping'') (Str ''AAPL''))" "run [Connection]" 0 True]
       inbound_decoding [of "Json (JsonObject None Undefined)" "run [Connection]" 0 True]
       inbound_decoding [of Malformed "run [Connection]" 0 True] h1 h2 h3 a l
  show ?thesis by simp
qed

text \<open>
  As stated, with a frame that lacks \<^verbatim>\<open>stockSymbol\<close> dropped, C9 fails: a subscribe frame
  without the field is handled for the key \<^verbatim>\<open>undefined\<close>.
\<close>

theorem missing_symbol_counterexample:
  "clientSubscriptions (run [Connection]) 0 = Some []
   \<and> globalSubscriptions (run [Connection]) Undefined = None
   \<and> clientSubscriptions
        (onMessage (run [Connection]) 0 (subscribe_frame Undefined) True) 0
      = Some [Undefined]
   \<and> globalSubscriptions
        (onMessage (run [Connection]) 0 (subscribe_frame Undefined) True)
        Undefined = Some [0]
   \<and> redisCalls
        (onMessage (run [Connection]) 0 (subscribe_frame Undefined) True)
      = [Subscribe Undefined]
   \<and> channel Undefined = ''orderbook.undefined''"
  by (simp add: eval_defs channel_def)

text \<open>
  C10 (broadcast without subscribers). For a topic with no entry in
  \<^verbatim>\<open>globalSubscriptions\<close>, or with an entry holding the empty set, the broadcast sends
  nothing and leaves both indices and the upstream calls unchanged: with no entry it
  returns at once, with an empty entry it only logs a broadcast with all counts zero.
\<close>

theorem broadcast_without_subscribers:
  assumes "globalSubscriptions st T = None \<or> globalSubscriptions st T = Some []"
  shows "broadcastToSubscribers st readyState T payload =
           (case globalSubscriptions st T of
              None \<Rightarrow> st | Some subs \<Rightarrow> logger (BroadcastCompleted T 0 0 0) st)
    \<and> sent (broadcastToSubscribers st readyState T payload) = sent st
    \<and> globalSubscriptions (broadcastToSubscribers st readyState T payload)
        = globalSubscriptions st
    \<and> clientSubscriptions (broadcastToSubscribers st readyState T payload)
        = clientSubscriptions st
    \<and> redisCalls (broadcastToSubscribers st readyState T payload) = redisCalls st"
  using assms by (auto simp: broadcast_eq broadcast_sent subscribers_def)

theorem broadcast_without_subscribers_witness:
  "globalSubscriptions (run [Connection,
       Message 0 (subscribe_frame (Str ''T'')), Reply 0 True,
       Message 0 (unsubscribe_frame (Str ''T'')), Reply 0 False]) (Str ''T'')
     = Some []
   \<and> globalSubscriptions (run [Connection,
       Message 0 (subscribe_frame (Str ''T'')), Reply 0 True,
       Message 0 (unsubscribe_frame (Str ''T'')), Reply 0 False]) (Str ''U'')
     = None
   \<and> sent (broadcastToSubscribers (run [Connection,
       Message 0 (subscribe_frame (Str ''T'')), Reply 0 True,
       Message 0 (unsubscribe_frame (Str ''T'')), Reply 0 False])
         all_open (Str ''T'') ''p'') = []
   \<and> broadcastToSubscribers (run [Connection,
       Message 0 (subscribe_frame (Str ''T'')), Reply 0 True,
       Message 0 (unsubscribe_frame (Str ''T'')), Reply 0 False])
         all_open (Str ''U'') ''p''
     = run [Connection,
       Message 0 (subscribe_frame (Str ''T'')), Reply 0 True,
       Message 0 (unsubscribe_frame (Str ''T'')), Reply 0 False]"
proof -
  let ?evs = "[Connection,
       Message 0 (subscribe_frame (Str ''T'')), Reply 0 True,
       Message 0 (unsubscribe_frame (Str ''T'')), Reply 0 False]"
  have t: "globalSubscriptions (run ?evs) (Str ''T'') = Some []"
    by (simp add: eval_defs)
  have u: "globalSubscriptions (run ?evs) (Str ''U'') = None"
    by (simp add: eval_defs)
  have s: "sent (run ?evs) = []"
    by (simp add: eval_defs)
  have ht: "globalSubscriptions (run ?evs) (Str ''T'') = None
      \<or> globalSubscriptions (run ?evs) (Str ''T'') = Some []" by (simp add: t)
  have hu: "globalSubscriptions (run ?evs) (Str ''U'') = None
      \<or> globalSubscriptions (run ?evs) (Str ''U'') = Some []" by (simp add: u)
  from broadcast_without_subscribers [OF ht, of all_open "''p''"]
       broadcast_without_subscribers [OF hu, of all_open "''p''"] t u s
  show ?thesis by simp
qed

end
